theory Spec2Isabelle
  imports Complex_Main
begin

section \<open>JavaScript numbers and truthiness\<close>

text \<open>
  The scrape route reads two properties of the JSON body: \<open>query\<close> and \<open>max\<close>.
  A JavaScript number is a double: not-a-number, one of the two infinities, or a finite
  value. Finite values are modelled as reals (every double is one; no operation of the
  route rounds), and \<open>-0\<close> is identified with \<open>0\<close> (both are falsy and compare equal).
\<close>

datatype jsnumber = NaN | NegInf | Fin real | PosInf

text \<open>The operator \<open><\<close> on numbers: false as soon as one side is \<open>NaN\<close>.\<close>

fun js_less :: "jsnumber \<Rightarrow> jsnumber \<Rightarrow> bool" where
  "js_less NaN _ = False"
| "js_less _ NaN = False"
| "js_less PosInf _ = False"
| "js_less _ NegInf = False"
| "js_less NegInf _ = True"
| "js_less _ PosInf = True"
| "js_less (Fin a) (Fin b) = (a < b)"

text \<open>The operator \<open>>=\<close> on numbers (again false with a \<open>NaN\<close> on either side).\<close>

fun js_ge :: "jsnumber \<Rightarrow> jsnumber \<Rightarrow> bool" where
  "js_ge NaN _ = False"
| "js_ge _ NaN = False"
| "js_ge PosInf _ = True"
| "js_ge _ NegInf = True"
| "js_ge NegInf _ = False"
| "js_ge _ PosInf = False"
| "js_ge (Fin a) (Fin b) = (b \<le> a)"

text \<open>\<open>Math.min(a, b)\<close>: \<open>NaN\<close> if either argument is, the smaller one otherwise.\<close>

fun Math_min :: "jsnumber \<Rightarrow> jsnumber \<Rightarrow> jsnumber" where
  "Math_min NaN _ = NaN"
| "Math_min _ NaN = NaN"
| "Math_min NegInf _ = NegInf"
| "Math_min _ NegInf = NegInf"
| "Math_min PosInf b = b"
| "Math_min a PosInf = a"
| "Math_min (Fin a) (Fin b) = Fin (min a b)"

text \<open>A number is truthy unless it is \<open>NaN\<close> or zero; \<open>a || b\<close> on numbers.\<close>

definition truthy_number :: "jsnumber \<Rightarrow> bool" where
  "truthy_number n = (n \<noteq> NaN \<and> n \<noteq> Fin 0)"

definition or_number :: "jsnumber \<Rightarrow> jsnumber \<Rightarrow> jsnumber" where
  "or_number a b = (if truthy_number a then a else b)"

text \<open>
  The values a JSON body can give \<open>query\<close>. \<open>Object\<close> stands for every array and object
  (always truthy).
\<close>

datatype jsvalue = Undefined | Null | Bool bool | Number jsnumber | String string | Object

fun truthy :: "jsvalue \<Rightarrow> bool" where
  "truthy Undefined = False"
| "truthy Null = False"
| "truthy (Bool b) = b"
| "truthy (Number n) = truthy_number n"
| "truthy (String s) = (s \<noteq> [])"
| "truthy Object = True"

section \<open>The request and its effective limit\<close>

text \<open>
  \<^verbatim>\<open>const { query, max = 20 } = req.body;\<close>
  \<^verbatim>\<open>if (!query) return res.json({ success: false, message: "query is required" });\<close>
  \<^verbatim>\<open>const limit = Math.min(Number(max) || 20, 50);\<close>

  The route reads \<open>max\<close> only through \<open>Number(max)\<close>. The field \<open>max_req\<close> is \<open>None\<close> when
  the body has no \<open>max\<close> (the destructuring default 20 then applies) and otherwise holds
  the number \<open>Number(max)\<close>: the number itself for a JSON number, and what the runtime's
  conversion yields for any other JSON value (\<open>NaN\<close> for a non-numeric string or a plain
  object, 0 for \<open>null\<close>).
\<close>

record request =
  query :: jsvalue
  max_req :: "jsnumber option"

definition Number_of_max :: "jsnumber option \<Rightarrow> jsnumber" where
  "Number_of_max m = (case m of None \<Rightarrow> Fin 20 | Some n \<Rightarrow> n)"

text \<open>
  The cap is the second argument of \<open>Math.min\<close>: 50 in the second route of
  \<open>server.js\<close>, 100 in its first route, in \<open>part_000\<close> and in \<open>part_001\<close>.
\<close>

definition limit_of :: "jsnumber \<Rightarrow> jsnumber option \<Rightarrow> jsnumber" where
  "limit_of cap m = Math_min (or_number (Number_of_max m) (Fin 20)) cap"

definition limit_v1 :: "jsnumber option \<Rightarrow> jsnumber" where
  "limit_v1 m = limit_of (Fin 100) m"

definition limit_v2 :: "jsnumber option \<Rightarrow> jsnumber" where
  "limit_v2 m = limit_of (Fin 50) m"

definition limit_p0 :: "jsnumber option \<Rightarrow> jsnumber" where
  "limit_p0 m = limit_of (Fin 100) m"

definition limit_p1 :: "jsnumber option \<Rightarrow> jsnumber" where
  "limit_p1 m = limit_of (Fin 100) m"

section \<open>Strings\<close>

text \<open>
  A string is a list of code units; the model's code units are 8-bit (\<open>char\<close>), which
  covers ASCII and Latin-1. \<open>code_unit\<close> is the number of a unit.
\<close>

definition code_unit :: "char \<Rightarrow> nat" where
  "code_unit c = of_char c"

text \<open>The classes \<open>\d\<close>, \<open>[a-zA-Z]\<close> and \<open>\s\<close> (tab, LF, VT, FF, CR, space, NBSP).\<close>

definition is_digit :: "char \<Rightarrow> bool" where
  "is_digit c = (48 \<le> code_unit c \<and> code_unit c \<le> 57)"

definition is_alpha :: "char \<Rightarrow> bool" where
  "is_alpha c = ((65 \<le> code_unit c \<and> code_unit c \<le> 90) \<or> (97 \<le> code_unit c \<and> code_unit c \<le> 122))"

definition is_space :: "char \<Rightarrow> bool" where
  "is_space c = (code_unit c \<in> {9, 10, 11, 12, 13, 32, 160})"

text \<open>\<open>s.toLowerCase()\<close>: A-Z and the Latin-1 capitals move up by 32.\<close>

definition lower_char :: "char \<Rightarrow> char" where
  "lower_char c =
     (if (65 \<le> code_unit c \<and> code_unit c \<le> 90) \<or>
         (192 \<le> code_unit c \<and> code_unit c \<le> 222 \<and> code_unit c \<noteq> 215)
      then char_of (code_unit c + 32) else c)"

definition toLowerCase :: "string \<Rightarrow> string" where
  "toLowerCase s = map lower_char s"

text \<open>\<open>s.includes(needle)\<close>.\<close>

fun str_includes :: "string \<Rightarrow> string \<Rightarrow> bool" where
  "str_includes [] needle = (needle = [])"
| "str_includes (c # cs) needle = (take (length needle) (c # cs) = needle \<or> str_includes cs needle)"

text \<open>\<open>s.trim()\<close>.\<close>

definition trim :: "string \<Rightarrow> string" where
  "trim s = rev (dropWhile is_space (rev (dropWhile is_space s)))"

text \<open>\<open>a || b\<close> on strings: the empty string is falsy.\<close>

definition or_str :: "string \<Rightarrow> string \<Rightarrow> string" where
  "or_str a b = (if a \<noteq> [] then a else b)"

section \<open>Regular expressions\<close>

text \<open>
  The patterns of the source use literals, \<open>?\<close>, and greedy repetition of a character
  class (\<open>+\<close>, \<open>{2,}\<close>). \<open>Rep n p\<close> is the class \<open>p\<close> repeated at least \<open>n\<close> times.
  \<open>rx_ends r s\<close> lists what is left of \<open>s\<close> after each way of matching \<open>r\<close> at its start,
  in the order a backtracking matcher tries them (longest repetition first); the match
  that the runtime reports is the first one.
\<close>

datatype rx = Str string | Opt rx | Rep nat "char \<Rightarrow> bool" | Seq rx rx

fun rx_ends :: "rx \<Rightarrow> string \<Rightarrow> string list" where
  "rx_ends (Str l) s = (if take (length l) s = l then [drop (length l) s] else [])"
| "rx_ends (Opt r) s = rx_ends r s @ [s]"
| "rx_ends (Rep n p) s = map (\<lambda>k. drop k s) (rev [n ..< Suc (length (takeWhile p s))])"
| "rx_ends (Seq a b) s = concat (map (rx_ends b) (rx_ends a s))"

definition rx_match_at :: "rx \<Rightarrow> string \<Rightarrow> string option" where
  "rx_match_at r s =
     (case rx_ends r s of [] \<Rightarrow> None | rest # _ \<Rightarrow> Some (take (length s - length rest) s))"

text \<open>\<open>s.match(r)\<close> without the \<open>g\<close> flag: the leftmost match, \<open>None\<close> for \<open>null\<close>.\<close>

fun rx_exec :: "rx \<Rightarrow> string \<Rightarrow> string option" where
  "rx_exec r [] = rx_match_at r []"
| "rx_exec r (c # cs) =
     (case rx_match_at r (c # cs) of None \<Rightarrow> rx_exec r cs | Some m \<Rightarrow> Some m)"

text \<open>
  \<open>s.match(r)\<close> with the \<open>g\<close> flag: all matches from left to right, each search
  starting where the last match ended (one unit further after an empty match).
  \<open>skip\<close> counts the units of the last match that are still to be passed.
\<close>

fun rx_match_all :: "rx \<Rightarrow> nat \<Rightarrow> string \<Rightarrow> string list" where
  "rx_match_all r skip [] =
     (if skip = 0 then (case rx_match_at r [] of None \<Rightarrow> [] | Some m \<Rightarrow> [m]) else [])"
| "rx_match_all r skip (c # cs) =
     (if 0 < skip then rx_match_all r (skip - 1) cs
      else (case rx_match_at r (c # cs) of
              None \<Rightarrow> rx_match_all r 0 cs
            | Some m \<Rightarrow> m # rx_match_all r (length m - 1) cs))"

text \<open>The least number of units in a match of a pattern.\<close>

fun min_len :: "rx \<Rightarrow> nat" where
  "min_len (Str l) = length l"
| "min_len (Opt r) = 0"
| "min_len (Rep n p) = n"
| "min_len (Seq a b) = min_len a + min_len b"

section \<open>The email extractor\<close>

text \<open>
  \<^verbatim>\<open>function extractEmailFromHtml(html){\<close>
  \<^verbatim>\<open>  const matches = html.match(/[a-zA-Z0-9._%+-]+@[a-zA-Z0-9.-]+\.[a-zA-Z]{2,}/g);\<close>
  \<^verbatim>\<open>  if(!matches) return null;\<close>
  \<^verbatim>\<open>  const uniq = Array.from(new Set(matches)).filter(e=>!e.toLowerCase().includes("example."));\<close>
  \<^verbatim>\<open>  return uniq[0] || null;\<close>
  \<^verbatim>\<open>}\<close>
\<close>

definition email_local :: "char \<Rightarrow> bool" where
  "email_local c = (is_alpha c \<or> is_digit c \<or> c \<in> set ''._%+-'')"

definition email_domain :: "char \<Rightarrow> bool" where
  "email_domain c = (is_alpha c \<or> is_digit c \<or> c \<in> set ''.-'')"

definition email_rx :: rx where
  "email_rx =
     Seq (Rep 1 email_local) (Seq (Str ''@'') (Seq (Rep 1 email_domain)
       (Seq (Str ''.'') (Rep 2 is_alpha))))"

text \<open>\<open>Array.from(new Set(xs))\<close>: the first occurrence of each element, in order.\<close>

fun uniq_from :: "'a list \<Rightarrow> 'a list \<Rightarrow> 'a list" where
  "uniq_from seen [] = []"
| "uniq_from seen (x # xs) =
     (if x \<in> set seen then uniq_from seen xs else x # uniq_from (x # seen) xs)"

definition uniq :: "'a list \<Rightarrow> 'a list" where
  "uniq xs = uniq_from [] xs"

definition placeholder :: "string \<Rightarrow> bool" where
  "placeholder e = str_includes (toLowerCase e) ''example.''"

definition extractEmailFromHtml :: "string \<Rightarrow> string option" where
  "extractEmailFromHtml html =
     (case rx_match_all email_rx 0 html of
        [] \<Rightarrow> None
      | m # ms \<Rightarrow>
          (case filter (\<lambda>e. \<not> placeholder e) (uniq (m # ms)) of
             [] \<Rightarrow> None
           | e # _ \<Rightarrow> if e \<noteq> [] then Some e else None))"

section \<open>The fields read from a detail pane\<close>

subsection \<open>\<open>parseInt\<close>\<close>

text \<open>
  \<open>parseInt(s, radix)\<close>: leading white space is dropped, a sign is read, a \<open>0x\<close> prefix
  selects radix 16 when the radix is absent (written 0 here) or 16, and the longest run of
  digits of the radix is converted; no digit gives \<open>NaN\<close> (\<open>None\<close>). The result is exact
  (the rounding of integers beyond \<open>2^53\<close> is not modelled).
\<close>

definition digit_val :: "char \<Rightarrow> nat" where
  "digit_val c =
     (if is_digit c then code_unit c - 48
      else if 97 \<le> code_unit c \<and> code_unit c \<le> 122 then code_unit c - 87
      else if 65 \<le> code_unit c \<and> code_unit c \<le> 90 then code_unit c - 55
      else 36)"

definition digits_value :: "nat \<Rightarrow> string \<Rightarrow> nat" where
  "digits_value radix ds = foldl (\<lambda>acc c. acc * radix + digit_val c) 0 ds"

definition has_hex_prefix :: "string \<Rightarrow> bool" where
  "has_hex_prefix s = (take 2 s = ''0x'' \<or> take 2 s = ''0X'')"

definition parseInt :: "string \<Rightarrow> nat \<Rightarrow> int option" where
  "parseInt s radix =
     (let s1 = dropWhile is_space s;
          negative = (take 1 s1 = ''-'');
          s2 = (if take 1 s1 = ''-'' \<or> take 1 s1 = ''+'' then drop 1 s1 else s1);
          strip = ((radix = 0 \<or> radix = 16) \<and> has_hex_prefix s2);
          r = (if strip then 16 else if radix = 0 then 10 else radix);
          s3 = (if strip then drop 2 s2 else s2);
          ds = takeWhile (\<lambda>c. digit_val c < r) s3
      in if radix \<noteq> 0 \<and> (radix < 2 \<or> 36 < radix) then None
         else if ds = [] then None
         else Some (if negative then - int (digits_value r ds) else int (digits_value r ds)))"

text \<open>\<open>n || 0\<close> on a number that may be \<open>NaN\<close> or \<open>null\<close>.\<close>

definition or_zero :: "int option \<Rightarrow> int" where
  "or_zero n = (case n of None \<Rightarrow> 0 | Some k \<Rightarrow> k)"

subsection \<open>The detail pane\<close>

text \<open>
  What the selectors of the routes find in the document after a listing was clicked.
  A field is \<open>None\<close> when no element matches, and otherwise holds the text of the first
  match (the routes read it as \<open>textContent\<close> or as \<open>innerText\<close>; the model does not
  tell the two apart). \<open>button_labels\<close> holds the \<open>aria-label\<close> attribute of every button, in
  document order (\<open>None\<close> for a button without the attribute). For the anchor marked
  \<open>data-item-id="authority"\<close>, \<open>href_attr\<close> is \<open>getAttribute("href")\<close>, \<open>href_prop\<close> the
  resolved \<open>href\<close> property and \<open>anchor_text\<close> its text content.
\<close>

record anchor =
  href_attr :: "string option"
  href_prop :: string
  anchor_text :: string

record pane =
  h1_DUwDvf :: "string option"
  h1_aria_level :: "string option"
  address_button :: "string option"
  phone_button :: "string option"
  phone_tel_button :: "string option"
  authority :: "anchor option"
  span_F7nice :: "string option"
  div_F7nice_span :: "string option"
  button_labels :: "string option list"
  desc_jsan :: "string option"
  desc_font :: "string option"
  desc_bN97Pc :: "string option"
  h1_span :: "string option"
  span_stars :: "string option"
  desc_aria_label :: "string option"

text \<open>
  \<^verbatim>\<open>const pickText = (el) => (el && (el.textContent || "").trim()) || "";\<close>
  and \<open>el?.textContent?.trim()\<close>, which is \<open>undefined\<close> (\<open>None\<close>) without an element.
\<close>

definition pickText :: "string option \<Rightarrow> string" where
  "pickText el = (case el of None \<Rightarrow> [] | Some t \<Rightarrow> trim t)"

definition opt_trim :: "string option \<Rightarrow> string option" where
  "opt_trim el = map_option trim el"

text \<open>\<open>a || b\<close> where \<open>a\<close> may be \<open>undefined\<close> or \<open>null\<close>, and \<open>a || null\<close>.\<close>

definition opt_or :: "string option \<Rightarrow> string \<Rightarrow> string" where
  "opt_or a b = (case a of None \<Rightarrow> b | Some s \<Rightarrow> or_str s b)"

definition or_null :: "string option \<Rightarrow> string option" where
  "or_null a = (case a of None \<Rightarrow> None | Some s \<Rightarrow> if s \<noteq> [] then Some s else None)"

subsection \<open>Website\<close>

text \<open>
  \<^verbatim>\<open>if (website && website.includes("http")) {\<close>
  \<^verbatim>\<open>  const m = website.match(/https?:\/\/[^\s"]+/);\<close>
  \<^verbatim>\<open>  if (m) website = m[0];\<close>
  \<^verbatim>\<open>}\<close>
  The second route and \<open>part_000\<close> write the same step as
  \<^verbatim>\<open>website = website.match(/https?:\/\/[^\s"]+/)?.[0] || website;\<close>
\<close>

definition url_char :: "char \<Rightarrow> bool" where
  "url_char c = (\<not> is_space c \<and> c \<noteq> CHR 0x22)"

definition website_rx :: rx where
  "website_rx = Seq (Str ''http'') (Seq (Opt (Str ''s'')) (Seq (Str ''://'') (Rep 1 url_char)))"

definition unwrap_v1 :: "string \<Rightarrow> string" where
  "unwrap_v1 website =
     (if website \<noteq> [] \<and> str_includes website ''http''
      then (case rx_exec website_rx website of None \<Rightarrow> website | Some m \<Rightarrow> m)
      else website)"

definition unwrap_v2 :: "string \<Rightarrow> string" where
  "unwrap_v2 website =
     (if website \<noteq> [] \<and> str_includes website ''http''
      then opt_or (rx_exec website_rx website) website
      else website)"

text \<open>First route: \<^verbatim>\<open>(qs('a[data-item-id="authority"]')?.getAttribute("href")) || ""\<close>.\<close>

definition website_v1 :: "pane \<Rightarrow> string" where
  "website_v1 p =
     unwrap_v1 (opt_or (case authority p of None \<Rightarrow> None | Some a \<Rightarrow> href_attr a) [])"

text \<open>Second route: \<^verbatim>\<open>qsa("a[data-item-id='authority']")?.[0]?.href || ""\<close>.\<close>

definition website_v2 :: "pane \<Rightarrow> string" where
  "website_v2 p = unwrap_v2 (opt_or (map_option href_prop (authority p)) [])"

text \<open>
  \<open>part_000\<close>: \<^verbatim>\<open>a ? a.getAttribute("href") || a.textContent.trim() : null\<close>, then
  \<^verbatim>\<open>|| null\<close>; the result stays \<open>null\<close> without an anchor.
\<close>

definition website_p0 :: "pane \<Rightarrow> string option" where
  "website_p0 p =
     map_option unwrap_v2
       (or_null (map_option (\<lambda>a. opt_or (href_attr a) (trim (anchor_text a))) (authority p)))"

text \<open>
  \<open>part_001\<close>: \<^verbatim>\<open>qsa("a[data-item-id='authority']")?.[0]?.href || null\<close>, then the
  same step.
\<close>

definition website_p1 :: "pane \<Rightarrow> string option" where
  "website_p1 p = map_option unwrap_v2 (or_null (map_option href_prop (authority p)))"

subsection \<open>Reviews\<close>

text \<open>
  \<^verbatim>\<open>const revBtn = qsa("button").find(b =>\<close>
  \<^verbatim>\<open>  (b.getAttribute("aria-label") || "").toLowerCase().includes("reviews"));\<close>
\<close>

definition label_text :: "string option \<Rightarrow> string" where
  "label_text l = opt_or l []"

definition reviews_button :: "pane \<Rightarrow> string option" where
  "reviews_button p =
     map_option label_text
       (find (\<lambda>l. str_includes (toLowerCase (label_text l)) ''reviews'') (button_labels p))"

text \<open>The pattern \<open>/[\d,\.]+/\<close>, and \<open>replace\<close> with a class and the \<open>g\<close> flag.\<close>

definition count_char :: "char \<Rightarrow> bool" where
  "count_char c = (is_digit c \<or> c = CHR '','' \<or> c = CHR ''.'')"

definition count_rx :: rx where
  "count_rx = Rep 1 count_char"

definition strip_separators_v1 :: "string \<Rightarrow> string" where
  "strip_separators_v1 s = filter (\<lambda>c. \<not> (c = CHR '','' \<or> c = CHR ''.'' \<or> is_space c)) s"

definition strip_separators :: "string \<Rightarrow> string" where
  "strip_separators s = filter (\<lambda>c. \<not> (c = CHR '','' \<or> c = CHR ''.'')) s"

text \<open>
  First route:
  \<^verbatim>\<open>let reviews = 0;\<close>
  \<^verbatim>\<open>if (revBtn) {\<close>
  \<^verbatim>\<open>  const m = (revBtn.getAttribute("aria-label") || "").match(/[\d,\.]+/);\<close>
  \<^verbatim>\<open>  if (m) reviews = parseInt(m[0].replace(/[,\.\s]/g, ""), 10);\<close>
  \<^verbatim>\<open>}\<close>
  The record then takes \<open>place.reviews || 0\<close>.
\<close>

definition reviews_v1 :: "pane \<Rightarrow> int option" where
  "reviews_v1 p =
     (case reviews_button p of
        None \<Rightarrow> Some 0
      | Some l \<Rightarrow>
          (case rx_exec count_rx l of
             None \<Rightarrow> Some 0
           | Some m \<Rightarrow> parseInt (strip_separators_v1 m) 10))"

text \<open>
  \<open>part_000\<close> and \<open>part_001\<close>:
  \<^verbatim>\<open>let reviews = null;\<close>
  \<^verbatim>\<open>if (reviewsBtn) {\<close>
  \<^verbatim>\<open>  const m = reviewsBtn.getAttribute("aria-label").match(/([\d,\.]+)/);\<close>
  \<^verbatim>\<open>  reviews = m ? parseInt(m[1].replace(/[,.]/g, "")) : null;\<close>
  \<^verbatim>\<open>}\<close>
\<close>

definition reviews_p0 :: "pane \<Rightarrow> int option" where
  "reviews_p0 p =
     (case reviews_button p of
        None \<Rightarrow> None
      | Some l \<Rightarrow>
          (case rx_exec count_rx l of
             None \<Rightarrow> None
           | Some m \<Rightarrow> parseInt (strip_separators m) 0))"

text \<open>
  Second route: the digits stay a string.
  \<^verbatim>\<open>let reviews = "";\<close>
  \<^verbatim>\<open>if (reviewsBtn) {\<close>
  \<^verbatim>\<open>  const m = reviewsBtn.getAttribute("aria-label").match(/([\d,\.]+)/);\<close>
  \<^verbatim>\<open>  reviews = m ? m[1].replace(/[,.]/g, "") : "";\<close>
  \<^verbatim>\<open>}\<close>
\<close>

definition reviews_v2 :: "pane \<Rightarrow> string" where
  "reviews_v2 p =
     (case reviews_button p of
        None \<Rightarrow> []
      | Some l \<Rightarrow>
          (case rx_exec count_rx l of
             None \<Rightarrow> []
           | Some m \<Rightarrow> strip_separators m))"

section \<open>The records pushed to the results\<close>

text \<open>
  First route and \<open>part_000\<close>:
  \<^verbatim>\<open>data.push({ name: place.name || "", email: ..., mobile: place.phone || "",\<close>
  \<^verbatim>\<open>  address: place.address || "", website: place.website || "",\<close>
  \<^verbatim>\<open>  description: place.description || "",\<close>
  \<^verbatim>\<open>  rating: place.rating ? String(place.rating) : "", reviews: place.reviews || 0 });\<close>
\<close>

record business =
  name :: string
  email :: string
  mobile :: string
  address :: string
  website :: string
  description :: string
  rating :: string
  reviews :: int

text \<open>
  The second route pushes the object read from the page as it is:
  \<^verbatim>\<open>return { name, address, phone, website, rating, reviews };\<close> and \<^verbatim>\<open>data.push(place);\<close>
\<close>

record place =
  place_name :: string
  place_address :: string
  place_phone :: string
  place_website :: string
  place_rating :: string
  place_reviews :: string

text \<open>
  The name as the first route reads it, twice: once to decide whether the listing is
  kept (\<open>a || b || ""\<close> over the two headings) and once inside the extraction
  (\<open>pickText(...) || pickText(...)\<close>).
\<close>

definition name_v1 :: "pane \<Rightarrow> string" where
  "name_v1 p = or_str (pickText (h1_DUwDvf p)) (pickText (h1_aria_level p))"

definition record_v1 :: "pane \<Rightarrow> business" where
  "record_v1 p =
     \<lparr> name = or_str (name_v1 p) [],
       email = [],
       mobile = or_str (pickText (phone_button p)) [],
       address = or_str (pickText (address_button p)) [],
       website = or_str (website_v1 p) [],
       description = or_str (or_str (pickText (desc_jsan p)) (pickText (desc_bN97Pc p))) [],
       rating = pickText (span_F7nice p),
       reviews = or_zero (reviews_v1 p) \<rparr>"

text \<open>
  Second route:
  \<^verbatim>\<open>const name = qs("h1[aria-level='1']")?.innerText?.trim() ||\<close>
  \<^verbatim>\<open>             qs("h1.DUwDvf")?.innerText?.trim() || "";\<close>
\<close>

definition place_v2 :: "pane \<Rightarrow> place" where
  "place_v2 p =
     \<lparr> place_name = opt_or (opt_trim (h1_aria_level p)) (opt_or (opt_trim (h1_DUwDvf p)) []),
       place_address = opt_or (opt_trim (address_button p)) [],
       place_phone = opt_or (opt_trim (phone_button p)) [],
       place_website = website_v2 p,
       place_rating = opt_or (opt_trim (span_F7nice p)) (opt_or (opt_trim (div_F7nice_span p)) []),
       place_reviews = reviews_v2 p \<rparr>"

text \<open>
  \<open>part_000\<close>: every field of the page object is a string or \<open>null\<close>
  (\<^verbatim>\<open>const name = qs("h1.DUwDvf")?.innerText?.trim() || null;\<close>), and the record
  replaces \<open>null\<close> by the empty string. The rating node is
  \<^verbatim>\<open>qs("div.F7nice span[aria-hidden='true']") || qs("span.F7nice")\<close>, the description
  node the first of three candidates.
\<close>

definition first_node :: "string option \<Rightarrow> string option \<Rightarrow> string option" where
  "first_node a b = (case a of None \<Rightarrow> b | Some t \<Rightarrow> Some t)"

definition record_p0 :: "pane \<Rightarrow> string option \<Rightarrow> business" where
  "record_p0 p mail =
     \<lparr> name = opt_or (or_null (opt_trim (h1_DUwDvf p))) [],
       email = opt_or mail [],
       mobile = opt_or (or_null (opt_trim (phone_tel_button p))) [],
       address = opt_or (or_null (opt_trim (address_button p))) [],
       website = opt_or (website_p0 p) [],
       description =
         opt_or (opt_trim (first_node (desc_jsan p) (first_node (desc_font p) (desc_bN97Pc p)))) [],
       rating = opt_or (opt_trim (first_node (div_F7nice_span p) (span_F7nice p))) [],
       reviews = or_zero (reviews_p0 p) \<rparr>"

text \<open>
  \<open>part_001\<close>: the name is \<^verbatim>\<open>qs("h1 span")?.innerText?.trim() || null\<close>, the rating
  \<^verbatim>\<open>qs("span[aria-label*='stars']")?.innerText?.trim() || null\<close>, the description
  \<^verbatim>\<open>qs("div[jsaction*='pane'] div[aria-label]")?.innerText?.trim() || null\<close>; no email
  is looked up.
\<close>

definition record_p1 :: "pane \<Rightarrow> business" where
  "record_p1 p =
     \<lparr> name = opt_or (or_null (opt_trim (h1_span p))) [],
       email = [],
       mobile = opt_or (or_null (opt_trim (phone_button p))) [],
       address = opt_or (or_null (opt_trim (address_button p))) [],
       website = opt_or (website_p1 p) [],
       description = opt_or (or_null (opt_trim (desc_aria_label p))) [],
       rating = opt_or (or_null (opt_trim (span_stars p))) [],
       reviews = or_zero (reviews_p0 p) \<rparr>"

section \<open>The browser as the route sees it\<close>

text \<open>
  Every call into the browser either returns or throws; a throw is \<open>Inl\<close> with the
  error's message. \<open>launch\<close> is \<open>Some e\<close> when \<open>puppeteer.launch\<close> throws, \<open>nav\<close> is \<open>Some e\<close>
  when opening the page, navigating to the search URL or waiting for the feed throws.
  \<open>polls k\<close> is the number of feed entries the \<open>k\<close>-th measurement of the loader finds
  (or the throw of that measurement or of the scroll after it), \<open>collect\<close> the number of
  entries found when the loader has returned, and \<open>visit i\<close> what happens when entry \<open>i\<close>
  is opened.
\<close>

record 'v env =
  launch :: "string option"
  nav :: "string option"
  polls :: "nat \<Rightarrow> string + nat"
  collect :: "string + nat"
  visit :: "nat \<Rightarrow> 'v"

text \<open>
  What a route does that the caller or the browser can observe, in order: a browser was
  launched, a JSON body was written with \<open>res.json\<close> (status 200), the browser was
  closed, or the handler ended with an exception that nothing in it catches (no
  response is written by the route).
\<close>

datatype 'r reply = Json_success "'r list" | Json_failure string

datatype 'r event = Launch | Respond "'r reply" | Close | Reject string

section \<open>The feed loader\<close>

text \<open>
  First route:
  \<^verbatim>\<open>async function loadEnough(count) {\<close>
  \<^verbatim>\<open>  let seen = 0;\<close>
  \<^verbatim>\<open>  let stagnant = 0;\<close>
  \<^verbatim>\<open>  for (let i = 0; i < 40; i++) {\<close>
  \<^verbatim>\<open>    const n = await page.$$eval(..., els => els.length);\<close>
  \<^verbatim>\<open>    if (n >= count) return;\<close>
  \<^verbatim>\<open>    await page.evaluate(...scroll...);\<close>
  \<^verbatim>\<open>    await sleep(1200);\<close>
  \<^verbatim>\<open>    if (n === seen) stagnant++; else stagnant = 0;\<close>
  \<^verbatim>\<open>    seen = n;\<close>
  \<^verbatim>\<open>    if (stagnant >= 6) return; // nothing new is loading\<close>
  \<^verbatim>\<open>  }\<close>
  \<^verbatim>\<open>}\<close>
  The source returns nothing; the model returns the number of measurements made.
\<close>

function loadEnough_v1 ::
  "(nat \<Rightarrow> string + nat) \<Rightarrow> jsnumber \<Rightarrow> nat \<Rightarrow> nat \<Rightarrow> nat \<Rightarrow> string + nat" where
  "loadEnough_v1 poll count i seen stagnant =
     (if i < 40 then
        (case poll i of
           Inl e \<Rightarrow> Inl e
         | Inr n \<Rightarrow>
             if js_ge (Fin (real n)) count then Inr (Suc i)
             else if 6 \<le> (if n = seen then Suc stagnant else 0) then Inr (Suc i)
             else loadEnough_v1 poll count (Suc i) n (if n = seen then Suc stagnant else 0))
      else Inr i)"
  by pat_completeness auto
termination
  by (relation "measure (\<lambda>(poll, count, i, seen, stagnant). 40 - i)") auto

declare loadEnough_v1.simps [simp del]

text \<open>
  Second route (15 tries), \<open>part_000\<close> and \<open>part_001\<close> (20 tries):
  \<^verbatim>\<open>for (let tries = 0; tries < 20; tries++) {\<close>
  \<^verbatim>\<open>  const num = await page.$$eval(resultsSelector, (els) => els.length);\<close>
  \<^verbatim>\<open>  if (num >= count) break;\<close>
  \<^verbatim>\<open>  await page.evaluate(...scroll...);\<close>
  \<^verbatim>\<open>  await sleep(800);\<close>
  \<^verbatim>\<open>}\<close>
\<close>

function loadEnough_tries ::
  "nat \<Rightarrow> (nat \<Rightarrow> string + nat) \<Rightarrow> jsnumber \<Rightarrow> nat \<Rightarrow> string + nat" where
  "loadEnough_tries bound poll count tries =
     (if tries < bound then
        (case poll tries of
           Inl e \<Rightarrow> Inl e
         | Inr num \<Rightarrow>
             if js_ge (Fin (real num)) count then Inr (Suc tries)
             else loadEnough_tries bound poll count (Suc tries))
      else Inr tries)"
  by pat_completeness auto
termination
  by (relation "measure (\<lambda>(bound, poll, count, tries). bound - tries)") auto

declare loadEnough_tries.simps [simp del]

definition loadEnough_v2 :: "(nat \<Rightarrow> string + nat) \<Rightarrow> jsnumber \<Rightarrow> string + nat" where
  "loadEnough_v2 poll count = loadEnough_tries 15 poll count 0"

definition loadEnough_p0 :: "(nat \<Rightarrow> string + nat) \<Rightarrow> jsnumber \<Rightarrow> string + nat" where
  "loadEnough_p0 poll count = loadEnough_tries 20 poll count 0"

definition loadEnough_p1 :: "(nat \<Rightarrow> string + nat) \<Rightarrow> jsnumber \<Rightarrow> string + nat" where
  "loadEnough_p1 poll count = loadEnough_tries 20 poll count 0"

section \<open>The scrape loops\<close>

text \<open>
  \<^verbatim>\<open>const take = Math.min(items.length, limit);\<close>
  \<^verbatim>\<open>for (let i = 0; i < take; i++) { ... }\<close>
  \<open>below_take i n limit\<close> is the loop condition \<open>i < take\<close> for \<open>n\<close> entries.
\<close>

definition below_take :: "nat \<Rightarrow> nat \<Rightarrow> jsnumber \<Rightarrow> bool" where
  "below_take i n limit = js_less (Fin (real i)) (Math_min (Fin (real n)) limit)"

text \<open>
  What opening entry \<open>i\<close> does in the first route. \<open>click\<close>: the evaluation that clicks
  the \<open>i\<close>-th anchor returns whether there was one, or it (or the fixed wait after it)
  throws. \<open>header\<close>: the pane as the name is read from it; \<open>None\<close> when the wait for the
  heading or that read throws (the route catches it and skips the entry). \<open>detail\<close>: the
  pane as the fields are extracted from it, or the throw of that evaluation.
\<close>

record v1_visit =
  click :: "string + bool"
  header :: "pane option"
  detail :: "string + pane"

text \<open>
  \<^verbatim>\<open>let lastName = null;\<close>
  \<^verbatim>\<open>for (let i = 0; i < take; i++) {\<close>
  \<^verbatim>\<open>  const clicked = await page.evaluate(...);\<close>
  \<^verbatim>\<open>  if (!clicked) continue;\<close>
  \<^verbatim>\<open>  await page.waitForTimeout(1500);\<close>
  \<^verbatim>\<open>  let name = "";\<close>
  \<^verbatim>\<open>  try { await page.waitForSelector(...); name = await page.evaluate(...); }\<close>
  \<^verbatim>\<open>  catch { continue; }\<close>
  \<^verbatim>\<open>  if (!name || name === lastName) continue;\<close>
  \<^verbatim>\<open>  lastName = name;\<close>
  \<^verbatim>\<open>  const place = await page.evaluate(...);\<close>
  \<^verbatim>\<open>  data.push({...});\<close>
  \<^verbatim>\<open>}\<close>
\<close>

function loop_v1 ::
  "(nat \<Rightarrow> v1_visit) \<Rightarrow> jsnumber \<Rightarrow> nat \<Rightarrow> nat \<Rightarrow> string option \<Rightarrow> business list
     \<Rightarrow> string + business list" where
  "loop_v1 vis limit n i lastName data =
     (if below_take i n limit then
        (case click (vis i) of
           Inl e \<Rightarrow> Inl e
         | Inr clicked \<Rightarrow>
             if \<not> clicked then loop_v1 vis limit n (Suc i) lastName data
             else
               (case header (vis i) of
                  None \<Rightarrow> loop_v1 vis limit n (Suc i) lastName data
                | Some h \<Rightarrow>
                    if name_v1 h = [] \<or> Some (name_v1 h) = lastName
                    then loop_v1 vis limit n (Suc i) lastName data
                    else
                      (case detail (vis i) of
                         Inl e \<Rightarrow> Inl e
                       | Inr p \<Rightarrow>
                           loop_v1 vis limit n (Suc i) (Some (name_v1 h)) (data @ [record_v1 p]))))
      else Inr data)"
  by pat_completeness auto
termination
proof -
  have less: "i < n" if "below_take i n limit" for i n limit
    using that by (cases limit) (auto simp: below_take_def)
  show ?thesis
    by (relation "measure (\<lambda>(vis, limit, n, i, lastName, data). n - i)") (auto dest: less)
qed

declare loop_v1.simps [simp del]

text \<open>
  Second route: a throw of the click, of the wait for the heading or of the extraction
  leaves the loop (\<open>Inl\<close>); otherwise the pane is read.
  \<^verbatim>\<open>for (let i = 0; i < take; i++) {\<close>
  \<^verbatim>\<open>  await items[i].click();\<close>
  \<^verbatim>\<open>  await page.waitForSelector("h1[aria-level='1'], h1.DUwDvf", { timeout: 15000 });\<close>
  \<^verbatim>\<open>  const place = await page.evaluate(...);\<close>
  \<^verbatim>\<open>  data.push(place);\<close>
  \<^verbatim>\<open>}\<close>
\<close>

function loop_v2 ::
  "(nat \<Rightarrow> string + pane) \<Rightarrow> jsnumber \<Rightarrow> nat \<Rightarrow> nat \<Rightarrow> place list \<Rightarrow> string + place list" where
  "loop_v2 vis limit n i data =
     (if below_take i n limit then
        (case vis i of
           Inl e \<Rightarrow> Inl e
         | Inr p \<Rightarrow> loop_v2 vis limit n (Suc i) (data @ [place_v2 p]))
      else Inr data)"
  by pat_completeness auto
termination
proof -
  have less: "i < n" if "below_take i n limit" for i n limit
    using that by (cases limit) (auto simp: below_take_def)
  show ?thesis
    by (relation "measure (\<lambda>(vis, limit, n, i, data). n - i)") (auto dest: less)
qed

declare loop_v2.simps [simp del]

text \<open>
  \<open>part_000\<close>. \<open>shown\<close>: the pane after the click (a failed click is retried inside the
  page), or the throw of that retry or of the extraction. \<open>home\<close>: the markup of the
  business's homepage, \<open>None\<close> when opening it throws. \<open>contact\<close>: the markup of the page
  behind the first anchor that looks like a contact link, \<open>None\<close> when there is no such
  anchor, its \<open>href\<close> is empty or opening it throws. Every throw of the email lookup is
  caught inside the iteration.
\<close>

record site =
  home :: "string option"
  contact :: "string option"

record p0_visit =
  shown :: "string + pane"
  site_of :: site

definition resolve_email :: "string option \<Rightarrow> site \<Rightarrow> string option" where
  "resolve_email web s =
     (if or_null web = None then None
      else
        (case home s of
           None \<Rightarrow> None
         | Some html \<Rightarrow>
             (case extractEmailFromHtml html of
                Some e \<Rightarrow> Some e
              | None \<Rightarrow>
                  (case contact s of
                     None \<Rightarrow> None
                   | Some html2 \<Rightarrow> extractEmailFromHtml html2))))"

function loop_p0 ::
  "(nat \<Rightarrow> p0_visit) \<Rightarrow> jsnumber \<Rightarrow> nat \<Rightarrow> nat \<Rightarrow> business list \<Rightarrow> string + business list" where
  "loop_p0 vis limit n i data =
     (if below_take i n limit then
        (case shown (vis i) of
           Inl e \<Rightarrow> Inl e
         | Inr p \<Rightarrow>
             loop_p0 vis limit n (Suc i)
               (data @ [record_p0 p (resolve_email (website_p0 p) (site_of (vis i)))]))
      else Inr data)"
  by pat_completeness auto
termination
proof -
  have less: "i < n" if "below_take i n limit" for i n limit
    using that by (cases limit) (auto simp: below_take_def)
  show ?thesis
    by (relation "measure (\<lambda>(vis, limit, n, i, data). n - i)") (auto dest: less)
qed

declare loop_p0.simps [simp del]

text \<open>
  \<open>part_001\<close>: as in the second route a throw of the click or of the extraction leaves
  the loop; a timeout of the wait for the heading is swallowed.
  \<^verbatim>\<open>for (let i = 0; i < take; i++) {\<close>
  \<^verbatim>\<open>  await items[i].click();\<close>
  \<^verbatim>\<open>  await page.waitForSelector("h1 span", { timeout: 8000 }).catch(() => {});\<close>
  \<^verbatim>\<open>  const place = await page.evaluate(...);\<close>
  \<^verbatim>\<open>  data.push({...});\<close>
  \<^verbatim>\<open>}\<close>
\<close>

function loop_p1 ::
  "(nat \<Rightarrow> string + pane) \<Rightarrow> jsnumber \<Rightarrow> nat \<Rightarrow> nat \<Rightarrow> business list
     \<Rightarrow> string + business list" where
  "loop_p1 vis limit n i data =
     (if below_take i n limit then
        (case vis i of
           Inl e \<Rightarrow> Inl e
         | Inr p \<Rightarrow> loop_p1 vis limit n (Suc i) (data @ [record_p1 p]))
      else Inr data)"
  by pat_completeness auto
termination
proof -
  have less: "i < n" if "below_take i n limit" for i n limit
    using that by (cases limit) (auto simp: below_take_def)
  show ?thesis
    by (relation "measure (\<lambda>(vis, limit, n, i, data). n - i)") (auto dest: less)
qed

declare loop_p1.simps [simp del]

section \<open>The scrape routes\<close>

text \<open>
  The part of a route inside its \<open>try\<close> block after the launch: open the page, load the
  feed, count the entries, visit them.
\<close>

definition run_v1 :: "v1_visit env \<Rightarrow> jsnumber \<Rightarrow> string + business list" where
  "run_v1 e limit =
     (case nav e of
        Some err \<Rightarrow> Inl err
      | None \<Rightarrow>
          (case loadEnough_v1 (polls e) limit 0 0 0 of
             Inl err \<Rightarrow> Inl err
           | Inr _ \<Rightarrow>
               (case collect e of
                  Inl err \<Rightarrow> Inl err
                | Inr n \<Rightarrow> loop_v1 (visit e) limit n 0 None [])))"

definition run_v2 :: "(string + pane) env \<Rightarrow> jsnumber \<Rightarrow> string + place list" where
  "run_v2 e limit =
     (case nav e of
        Some err \<Rightarrow> Inl err
      | None \<Rightarrow>
          (case loadEnough_v2 (polls e) limit of
             Inl err \<Rightarrow> Inl err
           | Inr _ \<Rightarrow>
               (case collect e of
                  Inl err \<Rightarrow> Inl err
                | Inr n \<Rightarrow> loop_v2 (visit e) limit n 0 [])))"

definition run_p0 :: "p0_visit env \<Rightarrow> jsnumber \<Rightarrow> string + business list" where
  "run_p0 e limit =
     (case nav e of
        Some err \<Rightarrow> Inl err
      | None \<Rightarrow>
          (case loadEnough_p0 (polls e) limit of
             Inl err \<Rightarrow> Inl err
           | Inr _ \<Rightarrow>
               (case collect e of
                  Inl err \<Rightarrow> Inl err
                | Inr n \<Rightarrow> loop_p0 (visit e) limit n 0 [])))"

definition run_p1 :: "(string + pane) env \<Rightarrow> jsnumber \<Rightarrow> string + business list" where
  "run_p1 e limit =
     (case nav e of
        Some err \<Rightarrow> Inl err
      | None \<Rightarrow>
          (case loadEnough_p1 (polls e) limit of
             Inl err \<Rightarrow> Inl err
           | Inr _ \<Rightarrow>
               (case collect e of
                  Inl err \<Rightarrow> Inl err
                | Inr n \<Rightarrow> loop_p1 (visit e) limit n 0 [])))"

text \<open>
  The first route of \<open>server.js\<close>. Its \<open>try\<close> block has no \<open>catch\<close> and no \<open>finally\<close>
  clause, and \<open>browser.close()\<close> is its last statement, after \<open>res.json\<close>: an exception
  thrown inside the block is handled by nothing in the route.
  \<^verbatim>\<open>  let browser;\<close>
  \<^verbatim>\<open>  try {\<close>
  \<^verbatim>\<open>    browser = await puppeteer.launch({...});\<close>
  \<^verbatim>\<open>    ...\<close>
  \<^verbatim>\<open>    res.json({ success: true, results: data });\<close>
  \<^verbatim>\<open>    if (browser) await browser.close().catch(() => {});\<close>
  \<^verbatim>\<open>  }\<close>
  \<^verbatim>\<open>});\<close>
\<close>

definition scrape_v1 :: "request \<Rightarrow> v1_visit env \<Rightarrow> business event list" where
  "scrape_v1 req e =
     (if \<not> truthy (query req) then [Respond (Json_failure ''query is required'')]
      else
        (case launch e of
           Some err \<Rightarrow> [Reject err]
         | None \<Rightarrow>
             (case run_v1 e (limit_v1 (max_req req)) of
                Inl err \<Rightarrow> [Launch, Reject err]
              | Inr data \<Rightarrow> [Launch, Respond (Json_success data), Close])))"

text \<open>
  The second route of \<open>server.js\<close> and the routes of \<open>part_000\<close> and \<open>part_001\<close>:
  \<^verbatim>\<open>  let browser;\<close>
  \<^verbatim>\<open>  try {\<close>
  \<^verbatim>\<open>    browser = await puppeteer.launch({...});\<close>
  \<^verbatim>\<open>    ...\<close>
  \<^verbatim>\<open>    res.json({ success: true, results: data });\<close>
  \<^verbatim>\<open>  } catch (err) {\<close>
  \<^verbatim>\<open>    res.json({ success: false, message: err.message });\<close>
  \<^verbatim>\<open>  } finally {\<close>
  \<^verbatim>\<open>    if (browser) await browser.close().catch(() => {});\<close>
  \<^verbatim>\<open>  }\<close>
\<close>

definition scrape_v2 :: "request \<Rightarrow> (string + pane) env \<Rightarrow> place event list" where
  "scrape_v2 req e =
     (if \<not> truthy (query req) then [Respond (Json_failure ''query is required'')]
      else
        (case launch e of
           Some err \<Rightarrow> [Respond (Json_failure err)]
         | None \<Rightarrow>
             (case run_v2 e (limit_v2 (max_req req)) of
                Inl err \<Rightarrow> [Launch, Respond (Json_failure err), Close]
              | Inr data \<Rightarrow> [Launch, Respond (Json_success data), Close])))"

definition scrape_p0 :: "request \<Rightarrow> p0_visit env \<Rightarrow> business event list" where
  "scrape_p0 req e =
     (if \<not> truthy (query req) then [Respond (Json_failure ''query is required'')]
      else
        (case launch e of
           Some err \<Rightarrow> [Respond (Json_failure err)]
         | None \<Rightarrow>
             (case run_p0 e (limit_p0 (max_req req)) of
                Inl err \<Rightarrow> [Launch, Respond (Json_failure err), Close]
              | Inr data \<Rightarrow> [Launch, Respond (Json_success data), Close])))"

definition scrape_p1 :: "request \<Rightarrow> (string + pane) env \<Rightarrow> business event list" where
  "scrape_p1 req e =
     (if \<not> truthy (query req) then [Respond (Json_failure ''query is required'')]
      else
        (case launch e of
           Some err \<Rightarrow> [Respond (Json_failure err)]
         | None \<Rightarrow>
             (case run_p1 e (limit_p1 (max_req req)) of
                Inl err \<Rightarrow> [Launch, Respond (Json_failure err), Close]
              | Inr data \<Rightarrow> [Launch, Respond (Json_success data), Close])))"

text \<open>What a trace says about the response and the browser.\<close>

fun replies :: "'r event list \<Rightarrow> 'r reply list" where
  "replies [] = []"
| "replies (Respond r # es) = r # replies es"
| "replies (_ # es) = replies es"

fun results_of :: "'r event list \<Rightarrow> 'r list option" where
  "results_of [] = None"
| "results_of (Respond (Json_success rs) # es) = Some rs"
| "results_of (_ # es) = results_of es"

text \<open>\<open>open_browsers n t\<close>: the browsers still open after trace \<open>t\<close>, starting from \<open>n\<close>.\<close>

fun open_browsers :: "nat \<Rightarrow> 'r event list \<Rightarrow> nat" where
  "open_browsers n [] = n"
| "open_browsers n (Launch # es) = open_browsers (Suc n) es"
| "open_browsers n (Close # es) = open_browsers (n - 1) es"
| "open_browsers n (_ # es) = open_browsers n es"

section \<open>Concrete requests, panes and feeds\<close>

text \<open>
  Inputs on which the routes are evaluated below: a pane with no element at all, a pane
  whose headings show a name, a request for \<open>coffee shops\<close>, and a browser that
  launches and navigates without a throw and whose feed always holds \<open>n\<close> entries.
\<close>

definition blank_pane :: pane where
  "blank_pane =
     \<lparr> h1_DUwDvf = None, h1_aria_level = None, address_button = None, phone_button = None,
       phone_tel_button = None, authority = None, span_F7nice = None, div_F7nice_span = None,
       button_labels = [], desc_jsan = None, desc_font = None, desc_bN97Pc = None,
       h1_span = None, span_stars = None, desc_aria_label = None \<rparr>"

definition named_pane :: "string \<Rightarrow> pane" where
  "named_pane nm =
     blank_pane \<lparr> h1_DUwDvf := Some nm, h1_aria_level := Some nm, h1_span := Some nm \<rparr>"

definition search :: "jsnumber option \<Rightarrow> request" where
  "search m = \<lparr> query = String ''coffee shops'', max_req = m \<rparr>"

definition feed_of :: "nat \<Rightarrow> (nat \<Rightarrow> 'v) \<Rightarrow> 'v env" where
  "feed_of n vis = \<lparr> launch = None, nav = None, polls = (\<lambda>k. Inr n), collect = Inr n, visit = vis \<rparr>"


text \<open>
  A pane with three buttons, the last labelled \<open>l\<close>; an entry of the first route whose
  pane stays as it is while it is read, and one whose page is gone; a browser whose feed
  never appears; a business whose homepage cannot be opened, and an entry of \<open>part_000\<close>
  for such a business.
\<close>

definition labelled_pane :: "string \<Rightarrow> pane" where
  "labelled_pane l = blank_pane \<lparr> button_labels := [None, Some ''Directions'', Some l] \<rparr>"

definition shows_v1 :: "pane \<Rightarrow> v1_visit" where
  "shows_v1 p = \<lparr> click = Inr True, header = Some p, detail = Inr p \<rparr>"



definition offline :: site where
  "offline = \<lparr> home = None, contact = None \<rparr>"

definition shows_p0 :: "pane \<Rightarrow> p0_visit" where
  "shows_p0 p = \<lparr> shown = Inr p, site_of = offline \<rparr>"

text \<open>
  An entry of the first route is stable when the pane shows the same name at both reads
  (the read that decides whether the entry is kept, and the extraction).
\<close>

definition stable :: "v1_visit \<Rightarrow> bool" where
  "stable v =
     (case header v of
        None \<Rightarrow> True
      | Some h \<Rightarrow> (case detail v of Inl e \<Rightarrow> True | Inr p \<Rightarrow> name_v1 p = name_v1 h))"

text \<open>
  The limit as the specification words it: the request's \<open>max\<close> clamped to \<open>[1, 50]\<close>.
\<close>

definition spec_clamp :: "real \<Rightarrow> real" where
  "spec_clamp m = max 1 (min 50 m)"

text \<open>
  A feed that shows one entry at every measurement of the loader and two entries when
  they are collected afterwards, in the first route.
\<close>

definition late_feed :: "v1_visit env" where
  "late_feed =
     \<lparr> launch = None, nav = None, polls = (\<lambda>k. Inr 1), collect = Inr 2,
       visit = (\<lambda>i. shows_v1 (named_pane (if i = 0 then ''Cafe Uno'' else ''Cafe Due''))) \<rparr>"

section \<open>How many records a loop can push\<close>

text \<open>
  When a loop returns a non-empty list, the index of its last record passed the loop
  condition: the list is no longer than the number of entries nor than the limit
  allows.
\<close>

lemma below_take_less: "below_take i n limit \<Longrightarrow> i < n"
  by (cases limit) (auto simp: below_take_def)

lemma below_take_mono: "below_take i n limit \<Longrightarrow> j \<le> i \<Longrightarrow> below_take j n limit"
  by (cases limit) (auto simp: below_take_def)

lemma loop_v2_last:
  "loop_v2 vis limit n i data = Inr res \<Longrightarrow> length data \<le> i \<Longrightarrow>
   (data \<noteq> [] \<Longrightarrow> below_take (length data - 1) n limit) \<Longrightarrow>
   res \<noteq> [] \<Longrightarrow> below_take (length res - 1) n limit"
proof (induction vis limit n i data rule: loop_v2.induct)
  case (1 vis limit n i data)
  show ?case
  proof (cases "below_take i n limit")
    case False
    with "1.prems" loop_v2.simps[of vis limit n i data] show ?thesis by simp
  next
    case True
    then obtain p where p: "vis i = Inr p"
      and rec: "loop_v2 vis limit n (Suc i) (data @ [place_v2 p]) = Inr res"
      using "1.prems"(1) loop_v2.simps[of vis limit n i data] by (cases "vis i") simp_all
    have "below_take (length data) n limit"
      using True "1.prems"(2) by (rule below_take_mono)
    then show ?thesis
      using "1.IH"[OF True p rec] "1.prems"(2,4) by simp
  qed
qed

lemma loop_p0_last:
  "loop_p0 vis limit n i data = Inr res \<Longrightarrow> length data \<le> i \<Longrightarrow>
   (data \<noteq> [] \<Longrightarrow> below_take (length data - 1) n limit) \<Longrightarrow>
   res \<noteq> [] \<Longrightarrow> below_take (length res - 1) n limit"
proof (induction vis limit n i data rule: loop_p0.induct)
  case (1 vis limit n i data)
  show ?case
  proof (cases "below_take i n limit")
    case False
    with "1.prems" loop_p0.simps[of vis limit n i data] show ?thesis by simp
  next
    case True
    then obtain p where p: "shown (vis i) = Inr p"
      and rec: "loop_p0 vis limit n (Suc i)
                  (data @ [record_p0 p (resolve_email (website_p0 p) (site_of (vis i)))]) = Inr res"
      using "1.prems"(1) loop_p0.simps[of vis limit n i data]
      by (cases "shown (vis i)") simp_all
    have "below_take (length data) n limit"
      using True "1.prems"(2) by (rule below_take_mono)
    then show ?thesis
      using "1.IH"[OF True p rec] "1.prems"(2,4) by simp
  qed
qed

lemma loop_p1_last:
  "loop_p1 vis limit n i data = Inr res \<Longrightarrow> length data \<le> i \<Longrightarrow>
   (data \<noteq> [] \<Longrightarrow> below_take (length data - 1) n limit) \<Longrightarrow>
   res \<noteq> [] \<Longrightarrow> below_take (length res - 1) n limit"
proof (induction vis limit n i data rule: loop_p1.induct)
  case (1 vis limit n i data)
  show ?case
  proof (cases "below_take i n limit")
    case False
    with "1.prems" loop_p1.simps[of vis limit n i data] show ?thesis by simp
  next
    case True
    then obtain p where p: "vis i = Inr p"
      and rec: "loop_p1 vis limit n (Suc i) (data @ [record_p1 p]) = Inr res"
      using "1.prems"(1) loop_p1.simps[of vis limit n i data] by (cases "vis i") simp_all
    have "below_take (length data) n limit"
      using True "1.prems"(2) by (rule below_take_mono)
    then show ?thesis
      using "1.IH"[OF True p rec] "1.prems"(2,4) by simp
  qed
qed

lemma loop_v1_last:
  "loop_v1 vis limit n i lastName data = Inr res \<Longrightarrow> length data \<le> i \<Longrightarrow>
   (data \<noteq> [] \<Longrightarrow> below_take (length data - 1) n limit) \<Longrightarrow>
   res \<noteq> [] \<Longrightarrow> below_take (length res - 1) n limit"
proof (induction vis limit n i lastName data rule: loop_v1.induct)
  case (1 vis limit n i lastName data)
  note step = loop_v1.simps[of vis limit n i lastName data]
  show ?case
  proof (cases "below_take i n limit")
    case False
    with "1.prems" step show ?thesis by simp
  next
    case True
    have grow: "below_take (length data) n limit"
      using True "1.prems"(2) by (rule below_take_mono)
    from "1.prems"(1) True step obtain clicked where c: "click (vis i) = Inr clicked"
      by (cases "click (vis i)") simp_all
    show ?thesis
    proof (cases "\<not> clicked \<or> header (vis i) = None")
      case skip: True
      then have "loop_v1 vis limit n (Suc i) lastName data = Inr res"
        using "1.prems"(1) True c step by (auto split: if_splits)
      with skip show ?thesis
        using "1.IH"(1)[OF True c] "1.IH"(2)[OF True c] "1.prems"(2,3,4)
        by (auto simp: le_Suc_eq)
    next
      case False
      then obtain h where cl: clicked and h: "header (vis i) = Some h" by auto
      show ?thesis
      proof (cases "name_v1 h = [] \<or> Some (name_v1 h) = lastName")
        case dup: True
        then have "loop_v1 vis limit n (Suc i) lastName data = Inr res"
          using "1.prems"(1) True c cl h step by simp
        then show ?thesis
          using "1.IH"(3)[OF True c _ h dup] cl "1.prems"(2,3,4) by (auto simp: le_Suc_eq)
      next
        case fresh: False
        then obtain p where p: "detail (vis i) = Inr p"
          and rec: "loop_v1 vis limit n (Suc i) (Some (name_v1 h)) (data @ [record_v1 p]) = Inr res"
          using "1.prems"(1) True c cl h step by (cases "detail (vis i)") simp_all
        show ?thesis
          using "1.IH"(4)[OF True c _ h fresh p rec] cl grow "1.prems"(2,4) by simp
      qed
    qed
  qed
qed


lemma results_v1D:
  "results_of (scrape_v1 req e) = Some data \<Longrightarrow>
   \<exists>n. collect e = Inr n \<and> loop_v1 (visit e) (limit_v1 (max_req req)) n 0 None [] = Inr data"
  by (auto simp: scrape_v1_def run_v1_def split: if_splits option.splits sum.splits)

lemma results_v2D:
  "results_of (scrape_v2 req e) = Some data \<Longrightarrow>
   \<exists>n. collect e = Inr n \<and> loop_v2 (visit e) (limit_v2 (max_req req)) n 0 [] = Inr data"
  by (auto simp: scrape_v2_def run_v2_def split: if_splits option.splits sum.splits)

lemma results_p0D:
  "results_of (scrape_p0 req e) = Some data \<Longrightarrow>
   \<exists>n. collect e = Inr n \<and> loop_p0 (visit e) (limit_p0 (max_req req)) n 0 [] = Inr data"
  by (auto simp: scrape_p0_def run_p0_def split: if_splits option.splits sum.splits)

lemma results_p1D:
  "results_of (scrape_p1 req e) = Some data \<Longrightarrow>
   \<exists>n. collect e = Inr n \<and> loop_p1 (visit e) (limit_p1 (max_req req)) n 0 [] = Inr data"
  by (auto simp: scrape_p1_def run_p1_def split: if_splits option.splits sum.splits)

lemma below_take_limit:
  "below_take i n (Fin r) \<Longrightarrow> real i < r"
  by (simp add: below_take_def)

lemma last_index_bound:
  assumes "res \<noteq> [] \<Longrightarrow> below_take (length res - 1) n (Fin r)" and "r \<le> real k"
  shows "length res \<le> k"
proof (cases "res = []")
  case True
  then show ?thesis by simp
next
  case False
  then have "real (length res - 1) < real k"
    using assms below_take_limit by fastforce
  then show ?thesis by simp
qed

lemma last_index_entries:
  assumes "res \<noteq> [] \<Longrightarrow> below_take (length res - 1) n limit"
  shows "length res \<le> n"
proof (cases "res = []")
  case True
  then show ?thesis by simp
next
  case False
  then have "length res - 1 < n"
    using assms below_take_less by blast
  then show ?thesis by simp
qed

lemma results_v1_last:
  "results_of (scrape_v1 req e) = Some data \<Longrightarrow> data \<noteq> [] \<Longrightarrow>
   \<exists>n. collect e = Inr n \<and> below_take (length data - 1) n (limit_v1 (max_req req))"
  using results_v1D loop_v1_last by fastforce

lemma results_v2_last:
  "results_of (scrape_v2 req e) = Some data \<Longrightarrow> data \<noteq> [] \<Longrightarrow>
   \<exists>n. collect e = Inr n \<and> below_take (length data - 1) n (limit_v2 (max_req req))"
  using results_v2D loop_v2_last by fastforce

lemma results_p0_last:
  "results_of (scrape_p0 req e) = Some data \<Longrightarrow> data \<noteq> [] \<Longrightarrow>
   \<exists>n. collect e = Inr n \<and> below_take (length data - 1) n (limit_p0 (max_req req))"
  using results_p0D loop_p0_last by fastforce

lemma results_p1_last:
  "results_of (scrape_p1 req e) = Some data \<Longrightarrow> data \<noteq> [] \<Longrightarrow>
   \<exists>n. collect e = Inr n \<and> below_take (length data - 1) n (limit_p1 (max_req req))"
  using results_p1D loop_p1_last by fastforce

lemma limit_of_absent_or_falsy:
  "m = None \<or> m = Some NaN \<or> m = Some (Fin 0) \<Longrightarrow> limit_of (Fin c) m = Fin (min 20 c)"
  by (auto simp: limit_of_def Number_of_max_def or_number_def truthy_number_def)

section \<open>The default limit\<close>

text \<open>
  Claim C10. When the request's \<open>max\<close> is absent, non-numeric (\<open>Number(max)\<close> is \<open>NaN\<close>) or
  zero, the effective limit of each of the four routes is 20, and a successful response then holds
  at most 20 records.
\<close>

theorem default_limit_is_20:
  assumes "max_req req = None \<or> max_req req = Some NaN \<or> max_req req = Some (Fin 0)"
  shows "limit_v1 (max_req req) = Fin 20 \<and> limit_v2 (max_req req) = Fin 20 \<and>
         limit_p0 (max_req req) = Fin 20 \<and> limit_p1 (max_req req) = Fin 20 \<and>
         (\<forall>data. results_of (scrape_v1 req e1) = Some data \<longrightarrow> length data \<le> 20) \<and>
         (\<forall>data. results_of (scrape_v2 req e2) = Some data \<longrightarrow> length data \<le> 20) \<and>
         (\<forall>data. results_of (scrape_p0 req e3) = Some data \<longrightarrow> length data \<le> 20) \<and>
         (\<forall>data. results_of (scrape_p1 req e4) = Some data \<longrightarrow> length data \<le> 20)"
proof -
  have l1: "limit_v1 (max_req req) = Fin 20"
    using limit_of_absent_or_falsy[OF assms, of 100] by (simp add: limit_v1_def)
  have l2: "limit_v2 (max_req req) = Fin 20"
    using limit_of_absent_or_falsy[OF assms, of 50] by (simp add: limit_v2_def)
  have l3: "limit_p0 (max_req req) = Fin 20"
    using limit_of_absent_or_falsy[OF assms, of 100] by (simp add: limit_p0_def)
  have l4: "limit_p1 (max_req req) = Fin 20"
    using limit_of_absent_or_falsy[OF assms, of 100] by (simp add: limit_p1_def)
  have b1: "length data \<le> 20" if "results_of (scrape_v1 req e1) = Some data" for data
    using results_v1_last[OF that] l1 last_index_bound[of data _ 20 20] by fastforce
  have b2: "length data \<le> 20" if "results_of (scrape_v2 req e2) = Some data" for data
    using results_v2_last[OF that] l2 last_index_bound[of data _ 20 20] by fastforce
  have b3: "length data \<le> 20" if "results_of (scrape_p0 req e3) = Some data" for data
    using results_p0_last[OF that] l3 last_index_bound[of data _ 20 20] by fastforce
  have b4: "length data \<le> 20" if "results_of (scrape_p1 req e4) = Some data" for data
    using results_p1_last[OF that] l4 last_index_bound[of data _ 20 20] by fastforce
  from l1 l2 l3 l4 b1 b2 b3 b4 show ?thesis by blast
qed

text \<open>
  With no \<open>max\<close> and a feed of 21 entries the second route returns exactly 20 records.
\<close>

theorem default_limit_is_20_witness:
  "max_req (search None) = None \<and>
   limit_v1 (max_req (search None)) = Fin 20 \<and> limit_v2 (max_req (search None)) = Fin 20 \<and>
   limit_p0 (max_req (search None)) = Fin 20 \<and> limit_p1 (max_req (search None)) = Fin 20 \<and>
   map_option length (results_of (scrape_v2 (search None) (feed_of 21 (\<lambda>i. Inr blank_pane))))
     = Some 20"
proof -
  have h: "max_req (search None) = None \<or> max_req (search None) = Some NaN \<or>
           max_req (search None) = Some (Fin 0)"
    by (simp add: search_def)
  have run: "map_option length
       (results_of (scrape_v2 (search None) (feed_of 21 (\<lambda>i. Inr blank_pane)))) = Some 20"
    by (simp add: scrape_v2_def run_v2_def search_def feed_of_def limit_v2_def limit_of_def
        Number_of_max_def or_number_def truthy_number_def loadEnough_v2_def below_take_def
        loadEnough_tries.simps loop_v2.simps)
  show ?thesis
    using default_limit_is_20[OF h, of "feed_of 0 (\<lambda>i. shows_v1 blank_pane)"
        "feed_of 21 (\<lambda>i. Inr blank_pane)" "feed_of 0 (\<lambda>i. shows_p0 blank_pane)"
        "feed_of 0 (\<lambda>i. Inr blank_pane)"] run
    by (simp add: search_def)
qed



section \<open>A request without a query\<close>

text \<open>
  Claim C9. A request whose body has no query (or any falsy one) is answered with
  \<open>{success: false, message: "query is required"}\<close> and nothing else happens: the trace
  of each route is that single response, so no browser is launched.
\<close>

theorem missing_query_rejected_before_launch:
  assumes "\<not> truthy (query req)"
  shows "scrape_v1 req e1 = [Respond (Json_failure ''query is required'')] \<and>
         scrape_v2 req e2 = [Respond (Json_failure ''query is required'')] \<and>
         scrape_p0 req e3 = [Respond (Json_failure ''query is required'')] \<and>
         scrape_p1 req e4 = [Respond (Json_failure ''query is required'')]"
  using assms by (simp add: scrape_v1_def scrape_v2_def scrape_p0_def scrape_p1_def)

text \<open>The four routes on a body without \<open>query\<close>.\<close>

theorem missing_query_rejected_before_launch_witness:
  "\<not> truthy (query \<lparr> query = Undefined, max_req = Some (Fin 5) \<rparr>) \<and>
   scrape_v1 \<lparr> query = Undefined, max_req = Some (Fin 5) \<rparr> (feed_of 3 (\<lambda>i. shows_v1 blank_pane))
     = [Respond (Json_failure ''query is required'')] \<and>
   scrape_v2 \<lparr> query = Undefined, max_req = Some (Fin 5) \<rparr> (feed_of 3 (\<lambda>i. Inr blank_pane))
     = [Respond (Json_failure ''query is required'')] \<and>
   scrape_p0 \<lparr> query = Undefined, max_req = Some (Fin 5) \<rparr> (feed_of 3 (\<lambda>i. shows_p0 blank_pane))
     = [Respond (Json_failure ''query is required'')] \<and>
   scrape_p1 \<lparr> query = Undefined, max_req = Some (Fin 5) \<rparr> (feed_of 3 (\<lambda>i. Inr blank_pane))
     = [Respond (Json_failure ''query is required'')] \<and>
   open_browsers 0
     (scrape_v2 \<lparr> query = Undefined, max_req = Some (Fin 5) \<rparr> (feed_of 3 (\<lambda>i. Inr blank_pane))) = 0"
proof -
  have h: "\<not> truthy (query \<lparr> query = Undefined, max_req = Some (Fin 5) \<rparr>)"
    by simp
  show ?thesis
    using missing_query_rejected_before_launch[OF h, of "feed_of 3 (\<lambda>i. shows_v1 blank_pane)"
        "feed_of 3 (\<lambda>i. Inr blank_pane)" "feed_of 3 (\<lambda>i. shows_p0 blank_pane)"
        "feed_of 3 (\<lambda>i. Inr blank_pane)"] h
    by simp
qed


section \<open>Matches of a pattern\<close>

text \<open>
  A match consumes at least \<open>min_len\<close> units, so the global match of a pattern that
  cannot match the empty string holds no empty string.
\<close>

lemma rx_ends_length:
  "rest \<in> set (rx_ends r s) \<Longrightarrow> length rest + min_len r \<le> length s"
proof (induction r arbitrary: s rest)
  case (Str l)
  then have "take (length l) s = l" and "rest = drop (length l) s"
    by (auto split: if_splits)
  from \<open>take (length l) s = l\<close> have "length (take (length l) s) = length l"
    by simp
  then have "length l \<le> length s"
    by simp
  with \<open>rest = drop (length l) s\<close> show ?case by simp
next
  case (Opt r)
  then show ?case by fastforce
next
  case (Rep n p)
  then obtain k where k: "rest = drop k s" "n \<le> k" "k \<le> length (takeWhile p s)"
    by auto
  moreover have "length (takeWhile p s) \<le> length s"
    by (rule length_takeWhile_le)
  ultimately show ?case by simp
next
  case (Seq a b)
  then obtain mid where "mid \<in> set (rx_ends a s)" and "rest \<in> set (rx_ends b mid)"
    by auto
  then have "length mid + min_len a \<le> length s" and "length rest + min_len b \<le> length mid"
    using Seq.IH by blast+
  then show ?case by simp
qed

lemma rx_match_at_length:
  assumes "rx_match_at r s = Some m"
  shows "min_len r \<le> length m"
proof -
  from assms obtain rest rs where e: "rx_ends r s = rest # rs"
    and m: "m = take (length s - length rest) s"
    by (auto simp: rx_match_at_def split: list.splits)
  then have "length rest + min_len r \<le> length s"
    using rx_ends_length[of rest r s] by simp
  with m show ?thesis by simp
qed

lemma rx_match_all_nonempty:
  "0 < min_len r \<Longrightarrow> m \<in> set (rx_match_all r k s) \<Longrightarrow> m \<noteq> []"
proof (induction s arbitrary: k)
  case Nil
  from Nil.prems(2) have "rx_match_at r [] = Some m"
    by (cases "k = 0"; cases "rx_match_at r []"; simp)
  then have "min_len r \<le> length m"
    by (rule rx_match_at_length)
  with Nil.prems(1) show ?case by auto
next
  case (Cons c cs)
  show ?case
  proof (cases "rx_match_at r (c # cs) = Some m")
    case True
    then have "min_len r \<le> length m"
      by (rule rx_match_at_length)
    with Cons.prems(1) show ?thesis by auto
  next
    case False
    with Cons.prems(2) have "\<exists>k'. m \<in> set (rx_match_all r k' cs)"
      by (auto split: if_splits option.splits)
    with Cons.IH Cons.prems(1) show ?thesis by blast
  qed
qed

lemma min_len_email: "min_len email_rx = 6"
  by (simp add: email_rx_def)

section \<open>The email extractor skips placeholder addresses\<close>

lemma find_uniq_from:
  "find P (uniq_from seen xs) = find (\<lambda>x. P x \<and> x \<notin> set seen) xs"
proof (induction xs arbitrary: seen)
  case Nil
  then show ?case by simp
next
  case (Cons x xs)
  show ?case
  proof (cases "x \<in> set seen")
    case True
    then show ?thesis using Cons.IH[of seen] by simp
  next
    case False
    have "find (\<lambda>y. P y \<and> y \<notin> set (x # seen)) xs = find (\<lambda>y. P y \<and> y \<notin> set seen) xs"
      if "\<not> P x"
      using that by (intro find_cong) auto
    then show ?thesis using False Cons.IH[of "x # seen"] by simp
  qed
qed

lemma set_uniq_from: "set (uniq_from seen xs) \<subseteq> set xs"
  by (induction xs arbitrary: seen) auto

lemma first_of_filter: "(case filter P xs of [] \<Rightarrow> None | e # _ \<Rightarrow> Some e) = find P xs"
  by (induction xs) auto

lemma extractEmail_find:
  "extractEmailFromHtml html = find (\<lambda>e. \<not> placeholder e) (rx_match_all email_rx 0 html)"
proof (cases "rx_match_all email_rx 0 html")
  case Nil
  then show ?thesis by (simp add: extractEmailFromHtml_def)
next
  case (Cons m ms)
  let ?keep = "filter (\<lambda>e. \<not> placeholder e) (uniq (m # ms))"
  have ne: "e \<noteq> []" if "e \<in> set ?keep" for e
  proof -
    from that have "e \<in> set (uniq (m # ms))" by simp
    then have "e \<in> set (m # ms)"
      unfolding uniq_def using set_uniq_from[of "[]" "m # ms"] by blast
    then show ?thesis
      using rx_match_all_nonempty[of email_rx e 0 html] Cons min_len_email by simp
  qed
  have "extractEmailFromHtml html = (case ?keep of [] \<Rightarrow> None | e # _ \<Rightarrow> Some e)"
  proof (cases ?keep)
    case Nil
    then show ?thesis by (simp add: extractEmailFromHtml_def Cons)
  next
    case (Cons e es)
    then have "e \<in> set ?keep" by simp
    then have "e \<noteq> []" by (rule ne)
    then show ?thesis
      using Cons by (simp add: extractEmailFromHtml_def \<open>rx_match_all email_rx 0 html = m # ms\<close>)
  qed
  also have "\<dots> = find (\<lambda>e. \<not> placeholder e) (uniq (m # ms))"
    by (rule first_of_filter)
  also have "\<dots> = find (\<lambda>e. \<not> placeholder e) (m # ms)"
    by (simp only: uniq_def find_uniq_from) simp
  finally show ?thesis by (simp add: Cons)
qed

text \<open>
  Claim C7. The email extractor never returns an address whose lower-cased text contains
  \<open>example.\<close>; what it returns is the first match of the address pattern, in document
  order, that does not contain it; and on markup holding \<open>info@example.com\<close> and then
  \<open>sales@realbiz.com\<close> it returns \<open>sales@realbiz.com\<close>.
\<close>

theorem extractEmail_skips_placeholders:
  "(\<forall>e. extractEmailFromHtml html = Some e \<longrightarrow> \<not> str_includes (toLowerCase e) ''example.'') \<and>
   extractEmailFromHtml html
     = find (\<lambda>e. \<not> str_includes (toLowerCase e) ''example.'') (rx_match_all email_rx 0 html) \<and>
   extractEmailFromHtml ''<p>info@example.com</p><p>sales@realbiz.com</p>''
     = Some ''sales@realbiz.com''"
proof -
  have a: "extractEmailFromHtml html
     = find (\<lambda>e. \<not> str_includes (toLowerCase e) ''example.'') (rx_match_all email_rx 0 html)"
    using extractEmail_find[of html] by (simp add: placeholder_def)
  have b: "\<not> str_includes (toLowerCase e) ''example.''" if "extractEmailFromHtml html = Some e" for e
    using that unfolding a by (auto simp: find_Some_iff)
  have c: "extractEmailFromHtml ''<p>info@example.com</p><p>sales@realbiz.com</p>''
     = Some ''sales@realbiz.com''"
    by code_simp
  from a b c show ?thesis by blast
qed

text \<open>
  Three addresses, the first a placeholder in mixed case, the last a placeholder again.
\<close>

theorem extractEmail_skips_placeholders_witness:
  "rx_match_all email_rx 0 ''Mail Info@Example.COM or sales@realbiz.com, info@example.com''
     = [''Info@Example.COM'', ''sales@realbiz.com'', ''info@example.com''] \<and>
   extractEmailFromHtml ''Mail Info@Example.COM or sales@realbiz.com, info@example.com''
     = Some ''sales@realbiz.com'' \<and>
   \<not> str_includes (toLowerCase ''sales@realbiz.com'') ''example.''"
proof -
  have m: "rx_match_all email_rx 0 ''Mail Info@Example.COM or sales@realbiz.com, info@example.com''
     = [''Info@Example.COM'', ''sales@realbiz.com'', ''info@example.com'']"
    by code_simp
  have e: "extractEmailFromHtml ''Mail Info@Example.COM or sales@realbiz.com, info@example.com''
     = Some ''sales@realbiz.com''"
    by code_simp
  show ?thesis
    using extractEmail_skips_placeholders[of
        "''Mail Info@Example.COM or sales@realbiz.com, info@example.com''"]
      m e by simp
qed

section \<open>The website field\<close>

text \<open>
  A greedy repetition first tries the whole run of class members. An \<open>href\<close> that
  itself starts with \<open>http://\<close> or \<open>https://\<close> therefore matches the website pattern at
  its first unit, and the match runs to the first white space or double quote.
\<close>

lemma rx_ends_Rep_first:
  assumes "n \<le> length (takeWhile p s)"
  shows "rx_ends (Rep n p) s
    = drop (length (takeWhile p s)) s # map (\<lambda>k. drop k s) (rev [n ..< length (takeWhile p s)])"
  using assms by simp









section \<open>Where a route departs from its siblings\<close>

text \<open>
  Claim C6 on the second route of \<open>server.js\<close>: the record is the page object itself, and
  its \<open>reviews\<close> is text. A review button labelled \<open>1,234 reviews\<close> gives the string
  \<open>1234\<close>, not the number, and a pane without such a button gives the empty string,
  not 0.
\<close>

theorem reviews_v2_is_text:
  "place_reviews (place_v2 (labelled_pane ''1,234 reviews'')) = ''1234'' \<and>
   place_reviews (place_v2 blank_pane) = []"
  by (simp add: place_v2_def reviews_v2_def reviews_button_def labelled_pane_def blank_pane_def
      label_text_def opt_or_def or_str_def toLowerCase_def lower_char_def code_unit_def
      count_rx_def count_char_def is_digit_def rx_match_at_def strip_separators_def)



text \<open>
  Claim C3 on \<open>part_000\<close>, on the second route of \<open>server.js\<close> and on \<open>part_001\<close>:
  their loops keep no last name. Two entries whose panes show the same name give two consecutive records
  with that name.
\<close>

theorem p0_repeats_a_name:
  "map_option (map name)
     (results_of (scrape_p0 (search None) (feed_of 2 (\<lambda>i. shows_p0 (named_pane ''Cafe Uno'')))))
     = Some [''Cafe Uno'', ''Cafe Uno''] \<and>
   map_option (map place_name)
     (results_of (scrape_v2 (search None) (feed_of 2 (\<lambda>i. Inr (named_pane ''Cafe Uno'')))))
     = Some [''Cafe Uno'', ''Cafe Uno''] \<and>
   map_option (map name)
     (results_of (scrape_p1 (search None) (feed_of 2 (\<lambda>i. Inr (named_pane ''Cafe Uno'')))))
     = Some [''Cafe Uno'', ''Cafe Uno'']"
proof -
  have c: "name (record_p1 (named_pane ''Cafe Uno'')) = ''Cafe Uno''"
    by (simp add: record_p1_def named_pane_def blank_pane_def opt_trim_def trim_def or_null_def
        opt_or_def or_str_def is_space_def code_unit_def)
  have p1: "results_of (scrape_p1 (search None) (feed_of 2 (\<lambda>i. Inr (named_pane ''Cafe Uno''))))
     = Some [record_p1 (named_pane ''Cafe Uno''), record_p1 (named_pane ''Cafe Uno'')]"
    by (simp add: scrape_p1_def run_p1_def search_def feed_of_def limit_p1_def limit_of_def
        Number_of_max_def or_number_def truthy_number_def below_take_def
        loadEnough_p1_def loadEnough_tries.simps loop_p1.simps)
  have a: "name (record_p0 (named_pane ''Cafe Uno'') mail) = ''Cafe Uno''" for mail
    by (simp add: record_p0_def named_pane_def blank_pane_def opt_trim_def trim_def or_null_def
        opt_or_def or_str_def is_space_def code_unit_def)
  have b: "place_name (place_v2 (named_pane ''Cafe Uno'')) = ''Cafe Uno''"
    by (simp add: place_v2_def named_pane_def blank_pane_def opt_trim_def trim_def
        opt_or_def or_str_def is_space_def code_unit_def)
  have "results_of (scrape_p0 (search None) (feed_of 2 (\<lambda>i. shows_p0 (named_pane ''Cafe Uno''))))
     = Some [record_p0 (named_pane ''Cafe Uno'')
               (resolve_email (website_p0 (named_pane ''Cafe Uno'')) offline),
             record_p0 (named_pane ''Cafe Uno'')
               (resolve_email (website_p0 (named_pane ''Cafe Uno'')) offline)]"
    by (simp add: scrape_p0_def run_p0_def search_def feed_of_def limit_p0_def limit_of_def
        Number_of_max_def or_number_def truthy_number_def below_take_def shows_p0_def
        loadEnough_p0_def loadEnough_tries.simps loop_p0.simps)
  moreover have "results_of (scrape_v2 (search None) (feed_of 2 (\<lambda>i. Inr (named_pane ''Cafe Uno''))))
     = Some [place_v2 (named_pane ''Cafe Uno''), place_v2 (named_pane ''Cafe Uno'')]"
    by (simp add: scrape_v2_def run_v2_def search_def feed_of_def limit_v2_def limit_of_def
        Number_of_max_def or_number_def truthy_number_def below_take_def
        loadEnough_v2_def loadEnough_tries.simps loop_v2.simps)
  ultimately show ?thesis using a b c p1 by simp
qed

section \<open>What the sibling routes do\<close>

text \<open>
  The second route of \<open>server.js\<close>, \<open>part_000\<close> and \<open>part_001\<close> catch every throw and
  close the browser in \<open>finally\<close>: for every request and every browser, exactly one JSON body is
  written and no browser stays open.
\<close>

lemma catching_trace_v2:
  "\<exists>r. scrape_v2 req e = [Respond r] \<or> scrape_v2 req e = [Launch, Respond r, Close]"
  by (auto simp: scrape_v2_def split: option.splits sum.splits)

lemma catching_trace_p1:
  "\<exists>r. scrape_p1 req e = [Respond r] \<or> scrape_p1 req e = [Launch, Respond r, Close]"
  by (auto simp: scrape_p1_def split: option.splits sum.splits)

lemma catching_trace_p0:
  "\<exists>r. scrape_p0 req e = [Respond r] \<or> scrape_p0 req e = [Launch, Respond r, Close]"
  by (auto simp: scrape_p0_def split: option.splits sum.splits)

theorem catching_routes_reply_once_and_close:
  "(\<exists>r. replies (scrape_v2 req e2) = [r]) \<and> open_browsers 0 (scrape_v2 req e2) = 0 \<and>
   (\<exists>r. replies (scrape_p0 req e3) = [r]) \<and> open_browsers 0 (scrape_p0 req e3) = 0 \<and>
   (\<exists>r. replies (scrape_p1 req e4) = [r]) \<and> open_browsers 0 (scrape_p1 req e4) = 0"
proof -
  obtain r4 where "scrape_p1 req e4 = [Respond r4] \<or> scrape_p1 req e4 = [Launch, Respond r4, Close]"
    using catching_trace_p1 by blast
  moreover
  obtain r2 where "scrape_v2 req e2 = [Respond r2] \<or> scrape_v2 req e2 = [Launch, Respond r2, Close]"
    using catching_trace_v2 by blast
  moreover obtain r3 where "scrape_p0 req e3 = [Respond r3] \<or> scrape_p0 req e3 = [Launch, Respond r3, Close]"
    using catching_trace_p0 by blast
  ultimately show ?thesis by auto
qed

text \<open>
  The first route of \<open>server.js\<close> keeps the last accepted name: over stable entries no
  two consecutive records share a name, and no record has an empty name.
\<close>

lemma name_record_v1: "name (record_v1 p) = name_v1 p"
  by (simp add: record_v1_def or_str_def)

lemma loop_v1_dedup:
  "loop_v1 vis limit n i lastName data = Inr res \<Longrightarrow> \<forall>j. stable (vis j) \<Longrightarrow>
    distinct_adj (map name data) \<Longrightarrow> [] \<notin> set (map name data) \<Longrightarrow>
    (data \<noteq> [] \<Longrightarrow> lastName = Some (name (last data))) \<Longrightarrow>
    distinct_adj (map name res) \<and> [] \<notin> set (map name res)"
proof (induction vis limit n i lastName data rule: loop_v1.induct)
  case (1 vis limit n i lastName data)
  note step = loop_v1.simps[of vis limit n i lastName data]
  note st = "1.prems"(2)
  show ?case
  proof (cases "below_take i n limit")
    case False
    with "1.prems" step show ?thesis by simp
  next
    case True
    from "1.prems"(1) True step obtain clicked where c: "click (vis i) = Inr clicked"
      by (cases "click (vis i)") simp_all
    show ?thesis
    proof (cases "\<not> clicked \<or> header (vis i) = None")
      case skip: True
      then have "loop_v1 vis limit n (Suc i) lastName data = Inr res"
        using "1.prems"(1) True c step by (auto split: if_splits)
      with skip show ?thesis
        using "1.IH"(1)[OF True c] "1.IH"(2)[OF True c] "1.prems"(2,3,4,5)
        by auto
    next
      case False
      then obtain h where cl: clicked and h: "header (vis i) = Some h" by auto
      show ?thesis
      proof (cases "name_v1 h = [] \<or> Some (name_v1 h) = lastName")
        case dup: True
        then have "loop_v1 vis limit n (Suc i) lastName data = Inr res"
          using "1.prems"(1) True c cl h step by simp
        then show ?thesis
          using "1.IH"(3)[OF True c _ h dup] cl "1.prems"(2,3,4,5) by auto
      next
        case fresh: False
        then obtain p where p: "detail (vis i) = Inr p"
          and rec: "loop_v1 vis limit n (Suc i) (Some (name_v1 h)) (data @ [record_v1 p]) = Inr res"
          using "1.prems"(1) True c cl h step by (cases "detail (vis i)") simp_all
        have same: "name (record_v1 p) = name_v1 h"
          using st[rule_format, of i] unfolding stable_def h p by (simp add: name_record_v1)
        have d: "distinct_adj (map name (data @ [record_v1 p]))"
          using "1.prems"(3,5) fresh same
          by (cases "data = []") (auto simp: distinct_adj_append_iff last_map)
        have e: "[] \<notin> set (map name (data @ [record_v1 p]))"
          using "1.prems"(4) fresh same by auto
        have l: "Some (name_v1 h) = Some (name (last (data @ [record_v1 p])))"
          using same by simp
        show ?thesis
          using "1.IH"(4)[OF True c _ h fresh p rec st d e l] cl by simp
      qed
    qed
  qed
qed

theorem v1_suppresses_adjacent_duplicates:
  assumes "\<forall>i. stable (visit e i)" and "results_of (scrape_v1 req e) = Some data"
  shows "distinct_adj (map name data) \<and> [] \<notin> set (map name data)"
proof -
  from assms(2) obtain n where
    "loop_v1 (visit e) (limit_v1 (max_req req)) n 0 None [] = Inr data"
    using results_v1D by blast
  then show ?thesis
    using loop_v1_dedup[of "visit e" "limit_v1 (max_req req)" n 0 None "[]" data] assms(1)
    by simp
qed

section \<open>The first route on a repeated name\<close>

text \<open>Two stable entries that show the same name give one record.\<close>

theorem v1_suppresses_adjacent_duplicates_witness:
  "stable (shows_v1 (named_pane ''Cafe Uno'')) \<and>
   map_option (map name)
     (results_of (scrape_v1 (search None) (feed_of 2 (\<lambda>i. shows_v1 (named_pane ''Cafe Uno'')))))
     = Some [''Cafe Uno''] \<and>
   distinct_adj [''Cafe Uno'']"
proof -
  have n: "name_v1 (named_pane ''Cafe Uno'') = ''Cafe Uno''"
    by (simp add: name_v1_def named_pane_def blank_pane_def pickText_def trim_def or_str_def
        is_space_def code_unit_def)
  have st: "\<forall>i. stable (visit (feed_of 2 (\<lambda>i. shows_v1 (named_pane ''Cafe Uno''))) i)"
    by (simp add: feed_of_def stable_def shows_v1_def)
  have r: "results_of (scrape_v1 (search None) (feed_of 2 (\<lambda>i. shows_v1 (named_pane ''Cafe Uno''))))
      = Some [record_v1 (named_pane ''Cafe Uno'')]"
    by (simp add: scrape_v1_def run_v1_def search_def feed_of_def limit_v1_def limit_of_def
        Number_of_max_def or_number_def truthy_number_def below_take_def shows_v1_def
        loadEnough_v1.simps loop_v1.simps n)
  show ?thesis
    using v1_suppresses_adjacent_duplicates[OF st r] r n
    by (simp add: stable_def shows_v1_def name_record_v1)
qed

section \<open>The reviews field on the parsing routes\<close>

text \<open>
  The match of a repeated class is the run of class members at the place where the
  search succeeds, so the digits handed to \<open>parseInt\<close> carry no sign.
\<close>

lemma rx_match_at_Rep:
  "rx_match_at (Rep n p) s = (if n \<le> length (takeWhile p s) then Some (takeWhile p s) else None)"
proof (cases "n \<le> length (takeWhile p s)")
  case True
  have "length s - (length s - length (takeWhile p s)) = length (takeWhile p s)"
    using length_takeWhile_le[of p s] by simp
  then show ?thesis
    using True rx_ends_Rep_first[OF True] takeWhile_eq_take[of p s]
    by (simp add: rx_match_at_def)
next
  case False
  then show ?thesis by (simp add: rx_match_at_def)
qed

lemma rx_exec_Rep_members:
  "rx_exec (Rep n p) s = Some m \<Longrightarrow> \<forall>c \<in> set m. p c"
proof (induction s)
  case Nil
  then show ?case by (simp add: rx_match_at_Rep split: if_splits)
next
  case (Cons c cs)
  then show ?case
    by (auto simp: rx_match_at_Rep split: if_splits dest: set_takeWhileD)
qed

lemma digit_not_space: "is_digit c \<Longrightarrow> \<not> is_space c"
  by (auto simp: is_digit_def is_space_def)

lemma digit_not_minus: "is_digit c \<Longrightarrow> c \<noteq> CHR ''-''"
  by (auto simp: is_digit_def code_unit_def)

lemma parseInt_digits_nonneg:
  assumes "\<forall>c \<in> set s. is_digit c" and "parseInt s r = Some k"
  shows "0 \<le> k"
proof -
  have "dropWhile is_space s = s"
    using assms(1) digit_not_space by (cases s) auto
  moreover have "take 1 s \<noteq> ''-''"
    using assms(1) digit_not_minus by (cases s) auto
  ultimately show ?thesis
    using assms(2) by (auto simp: parseInt_def Let_def split: if_splits)
qed

lemma stripped_digits:
  assumes "\<forall>c \<in> set m. count_char c"
  shows "\<forall>c \<in> set (strip_separators m). is_digit c"
    and "\<forall>c \<in> set (strip_separators_v1 m). is_digit c"
  using assms by (auto simp: strip_separators_def strip_separators_v1_def count_char_def)

text \<open>
  In the first route of \<open>server.js\<close>, in \<open>part_000\<close> and in \<open>part_001\<close> the \<open>reviews\<close> of a
  record is a
  non-negative integer: 1234 for a review button labelled \<open>1,234 reviews\<close>, and 0 without
  such a button.
\<close>

theorem reviews_parsed_nonneg:
  "0 \<le> reviews (record_v1 p) \<and> 0 \<le> reviews (record_p0 p mail) \<and>
   0 \<le> reviews (record_p1 p) \<and>
   reviews (record_v1 (labelled_pane ''1,234 reviews'')) = 1234 \<and>
   reviews (record_p0 (labelled_pane ''1,234 reviews'') mail) = 1234 \<and>
   reviews (record_p1 (labelled_pane ''1,234 reviews'')) = 1234 \<and>
   reviews (record_v1 blank_pane) = 0 \<and> reviews (record_p0 blank_pane mail) = 0 \<and>
   reviews (record_p1 blank_pane) = 0"
proof -
  have v1: "0 \<le> or_zero (reviews_v1 p)"
  proof (cases "reviews_v1 p")
    case None
    then show ?thesis by (simp add: or_zero_def)
  next
    case (Some k)
    then have "0 \<le> k"
      using rx_exec_Rep_members[of 1 count_char] stripped_digits(2) parseInt_digits_nonneg
      by (fastforce simp: reviews_v1_def count_rx_def split: option.splits)
    with Some show ?thesis by (simp add: or_zero_def)
  qed
  have p0: "0 \<le> or_zero (reviews_p0 p)"
  proof (cases "reviews_p0 p")
    case None
    then show ?thesis by (simp add: or_zero_def)
  next
    case (Some k)
    then have "0 \<le> k"
      using rx_exec_Rep_members[of 1 count_char] stripped_digits(1) parseInt_digits_nonneg
      by (fastforce simp: reviews_p0_def count_rx_def split: option.splits)
    with Some show ?thesis by (simp add: or_zero_def)
  qed
  have b: "reviews_button (labelled_pane ''1,234 reviews'') = Some ''1,234 reviews''"
    by (simp add: reviews_button_def labelled_pane_def blank_pane_def label_text_def opt_or_def
        or_str_def toLowerCase_def lower_char_def code_unit_def)
  have m: "rx_exec count_rx ''1,234 reviews'' = Some ''1,234''"
    by (simp add: count_rx_def rx_match_at_Rep count_char_def is_digit_def code_unit_def)
  have e1: "parseInt (strip_separators_v1 ''1,234'') 10 = Some 1234"
    by (simp add: strip_separators_v1_def parseInt_def has_hex_prefix_def digits_value_def
        digit_val_def is_digit_def is_space_def code_unit_def)
  have e2: "parseInt (strip_separators ''1,234'') 0 = Some 1234"
    by (simp add: strip_separators_def parseInt_def has_hex_prefix_def digits_value_def
        digit_val_def is_digit_def is_space_def code_unit_def)
  have n: "reviews_button blank_pane = None"
    by (simp add: reviews_button_def blank_pane_def)
  show ?thesis
    using v1 p0 b m e1 e2 n
    by (simp add: record_v1_def record_p0_def record_p1_def reviews_v1_def reviews_p0_def
        or_zero_def)
qed

section \<open>The limit of each route\<close>

lemma limit_of_le_cap: "js_ge (Fin c) (limit_of (Fin c) m)"
proof (cases "or_number (Number_of_max m) (Fin 20)")
  case NaN
  then show ?thesis by (auto simp: or_number_def truthy_number_def split: if_splits)
qed (simp_all add: limit_of_def)

lemma limit_of_as_given:
  "r \<noteq> 0 \<Longrightarrow> r \<le> c \<Longrightarrow> limit_of (Fin c) (Some (Fin r)) = Fin r"
  by (simp add: limit_of_def Number_of_max_def or_number_def truthy_number_def)

lemma limit_of_at_cap:
  "0 < c \<Longrightarrow> c \<le> r \<Longrightarrow> limit_of (Fin c) (Some (Fin r)) = Fin c"
  by (simp add: limit_of_def Number_of_max_def or_number_def truthy_number_def)

lemma below_take_cap:
  "below_take i n limit \<Longrightarrow> js_ge (Fin c) limit \<Longrightarrow> real i < c"
  by (cases limit) (auto simp: below_take_def)

lemma length_under_cap:
  assumes "data \<noteq> [] \<Longrightarrow> \<exists>n. below_take (length data - 1) n (limit_of (Fin c) m)"
    and "c \<le> real k"
  shows "length data \<le> k"
proof (cases "data = []")
  case True
  then show ?thesis by simp
next
  case False
  then obtain n where "below_take (length data - 1) n (limit_of (Fin c) m)"
    using assms(1) by blast
  then have "real (length data - 1) < c"
    using below_take_cap limit_of_le_cap by blast
  with assms(2) have "real (length data - 1) < real k" by simp
  then show ?thesis by simp
qed

lemma length_under_given:
  assumes "data \<noteq> [] \<Longrightarrow> \<exists>n. below_take (length data - 1) n (limit_of (Fin c) (Some (Fin r)))"
    and "r \<noteq> 0" and "r \<le> c"
  shows "data = [] \<or> real (length data) < r + 1"
proof (cases "data = []")
  case True
  then show ?thesis by simp
next
  case False
  then obtain n where "below_take (length data - 1) n (limit_of (Fin c) (Some (Fin r)))"
    using assms(1) by blast
  then have "real (length data - 1) < r"
    using assms(2,3) limit_of_as_given[of r c] below_take_limit by simp
  with False show ?thesis by (cases data) simp_all
qed

lemma length_under_whole:
  assumes "data \<noteq> [] \<Longrightarrow>
      \<exists>n. below_take (length data - 1) n (limit_of (Fin c) (Some (Fin (real k))))"
    and "1 \<le> k" and "real k \<le> c"
  shows "length data \<le> k"
proof -
  have "data = [] \<or> real (length data) < real k + 1"
    using length_under_given[of data c "real k"] assms by simp
  then show ?thesis by auto
qed

text \<open>
  Claim C1, as amended. In every route the effective limit is
  \<open>Math.min(Number(max) || 20, cap)\<close>, where the cap is 50 in the second route of
  \<open>server.js\<close> and 100 in its first route, in \<open>part_000\<close> and in \<open>part_001\<close>. The limit never
  exceeds the cap of its route, is the cap for a \<open>max\<close> at or above it, and has no floor:
  a non-zero \<open>max\<close> of at most the cap is the limit as it is. A successful response holds
  no more records than the cap; for a limit \<open>r\<close> it is empty or holds fewer than \<open>r + 1\<close>
  records, hence at most \<open>max\<close> records for an integer \<open>max\<close> from 1 to the cap (in all four
  routes for an integer \<open>max\<close> in \<open>[1, 50]\<close>).
\<close>

theorem limit_capped_not_floored:
  "js_ge (Fin 100) (limit_v1 (max_req req)) \<and> js_ge (Fin 50) (limit_v2 (max_req req)) \<and>
   js_ge (Fin 100) (limit_p0 (max_req req)) \<and> js_ge (Fin 100) (limit_p1 (max_req req)) \<and>
   (\<forall>data. results_of (scrape_v1 req e1) = Some data \<longrightarrow> length data \<le> 100) \<and>
   (\<forall>data. results_of (scrape_v2 req e2) = Some data \<longrightarrow> length data \<le> 50) \<and>
   (\<forall>data. results_of (scrape_p0 req e3) = Some data \<longrightarrow> length data \<le> 100) \<and>
   (\<forall>data. results_of (scrape_p1 req e4) = Some data \<longrightarrow> length data \<le> 100) \<and>
   (\<forall>r. max_req req = Some (Fin r) \<and> 100 \<le> r \<longrightarrow>
      limit_v1 (max_req req) = Fin 100 \<and> limit_v2 (max_req req) = Fin 50 \<and>
      limit_p0 (max_req req) = Fin 100 \<and> limit_p1 (max_req req) = Fin 100) \<and>
   (\<forall>r. max_req req = Some (Fin r) \<and> 50 \<le> r \<longrightarrow> limit_v2 (max_req req) = Fin 50) \<and>
   (\<forall>r. max_req req = Some (Fin r) \<and> r \<noteq> 0 \<and> r \<le> 100 \<longrightarrow>
      limit_v1 (max_req req) = Fin r \<and> limit_p0 (max_req req) = Fin r \<and>
      limit_p1 (max_req req) = Fin r \<and>
      (\<forall>data. results_of (scrape_v1 req e1) = Some data \<longrightarrow>
         (data = [] \<or> real (length data) < r + 1)) \<and>
      (\<forall>data. results_of (scrape_p0 req e3) = Some data \<longrightarrow>
         (data = [] \<or> real (length data) < r + 1)) \<and>
      (\<forall>data. results_of (scrape_p1 req e4) = Some data \<longrightarrow>
         (data = [] \<or> real (length data) < r + 1))) \<and>
   (\<forall>r. max_req req = Some (Fin r) \<and> r \<noteq> 0 \<and> r \<le> 50 \<longrightarrow>
      limit_v2 (max_req req) = Fin r \<and>
      (\<forall>data. results_of (scrape_v2 req e2) = Some data \<longrightarrow>
         (data = [] \<or> real (length data) < r + 1))) \<and>
   (\<forall>k. max_req req = Some (Fin (real k)) \<and> 1 \<le> k \<and> k \<le> 100 \<longrightarrow>
      limit_v1 (max_req req) = Fin (real k) \<and> limit_p0 (max_req req) = Fin (real k) \<and>
      limit_p1 (max_req req) = Fin (real k) \<and>
      (\<forall>data. results_of (scrape_v1 req e1) = Some data \<longrightarrow> length data \<le> k) \<and>
      (\<forall>data. results_of (scrape_p0 req e3) = Some data \<longrightarrow> length data \<le> k) \<and>
      (\<forall>data. results_of (scrape_p1 req e4) = Some data \<longrightarrow> length data \<le> k)) \<and>
   (\<forall>k. max_req req = Some (Fin (real k)) \<and> 1 \<le> k \<and> k \<le> 50 \<longrightarrow>
      limit_v2 (max_req req) = Fin (real k) \<and>
      (\<forall>data. results_of (scrape_v2 req e2) = Some data \<longrightarrow> length data \<le> k))"
proof -
  note lim = limit_v1_def limit_v2_def limit_p0_def limit_p1_def
  have caps: "js_ge (Fin 100) (limit_v1 (max_req req))" "js_ge (Fin 50) (limit_v2 (max_req req))"
    "js_ge (Fin 100) (limit_p0 (max_req req))" "js_ge (Fin 100) (limit_p1 (max_req req))"
    unfolding lim by (rule limit_of_le_cap)+
  have c1: "length data \<le> 100" if res: "results_of (scrape_v1 req e1) = Some data" for data
    using results_v1_last[OF res] length_under_cap[of data 100 "max_req req" 100]
    unfolding lim by auto
  have c2: "length data \<le> 50" if res: "results_of (scrape_v2 req e2) = Some data" for data
    using results_v2_last[OF res] length_under_cap[of data 50 "max_req req" 50]
    unfolding lim by auto
  have c3: "length data \<le> 100" if res: "results_of (scrape_p0 req e3) = Some data" for data
    using results_p0_last[OF res] length_under_cap[of data 100 "max_req req" 100]
    unfolding lim by auto
  have c4: "length data \<le> 100" if res: "results_of (scrape_p1 req e4) = Some data" for data
    using results_p1_last[OF res] length_under_cap[of data 100 "max_req req" 100]
    unfolding lim by auto
  have top: "limit_v1 (max_req req) = Fin 100 \<and> limit_p0 (max_req req) = Fin 100 \<and>
      limit_p1 (max_req req) = Fin 100"
    if "max_req req = Some (Fin r)" "100 \<le> r" for r
    using that limit_of_at_cap[of 100 r] unfolding lim by simp
  have top2: "limit_v2 (max_req req) = Fin 50" if "max_req req = Some (Fin r)" "50 \<le> r" for r
    using that limit_of_at_cap[of 50 r] unfolding lim by simp
  have g: "limit_v1 (max_req req) = Fin r \<and> limit_p0 (max_req req) = Fin r \<and>
      limit_p1 (max_req req) = Fin r"
    if "max_req req = Some (Fin r)" "r \<noteq> 0" "r \<le> 100" for r
    using that limit_of_as_given[of r 100] unfolding lim by simp
  have g2: "limit_v2 (max_req req) = Fin r"
    if "max_req req = Some (Fin r)" "r \<noteq> 0" "r \<le> 50" for r
    using that limit_of_as_given[of r 50] unfolding lim by simp
  have f1: "data = [] \<or> real (length data) < r + 1"
    if m: "max_req req = Some (Fin r)" "r \<noteq> 0" "r \<le> 100"
      and res: "results_of (scrape_v1 req e1) = Some data" for r data
    using results_v1_last[OF res] length_under_given[of data 100 r] m unfolding lim by auto
  have f2: "data = [] \<or> real (length data) < r + 1"
    if m: "max_req req = Some (Fin r)" "r \<noteq> 0" "r \<le> 50"
      and res: "results_of (scrape_v2 req e2) = Some data" for r data
    using results_v2_last[OF res] length_under_given[of data 50 r] m unfolding lim by auto
  have f3: "data = [] \<or> real (length data) < r + 1"
    if m: "max_req req = Some (Fin r)" "r \<noteq> 0" "r \<le> 100"
      and res: "results_of (scrape_p0 req e3) = Some data" for r data
    using results_p0_last[OF res] length_under_given[of data 100 r] m unfolding lim by auto
  have f4: "data = [] \<or> real (length data) < r + 1"
    if m: "max_req req = Some (Fin r)" "r \<noteq> 0" "r \<le> 100"
      and res: "results_of (scrape_p1 req e4) = Some data" for r data
    using results_p1_last[OF res] length_under_given[of data 100 r] m unfolding lim by auto
  have w1: "length data \<le> k"
    if m: "max_req req = Some (Fin (real k))" "1 \<le> k" "k \<le> 100"
      and res: "results_of (scrape_v1 req e1) = Some data" for k data
    using f1[of "real k" data] m res by auto
  have w2: "length data \<le> k"
    if m: "max_req req = Some (Fin (real k))" "1 \<le> k" "k \<le> 50"
      and res: "results_of (scrape_v2 req e2) = Some data" for k data
    using f2[of "real k" data] m res by auto
  have w3: "length data \<le> k"
    if m: "max_req req = Some (Fin (real k))" "1 \<le> k" "k \<le> 100"
      and res: "results_of (scrape_p0 req e3) = Some data" for k data
    using f3[of "real k" data] m res by auto
  have w4: "length data \<le> k"
    if m: "max_req req = Some (Fin (real k))" "1 \<le> k" "k \<le> 100"
      and res: "results_of (scrape_p1 req e4) = Some data" for k data
    using f4[of "real k" data] m res by auto
  have gk: "limit_v1 (max_req req) = Fin (real k) \<and> limit_p0 (max_req req) = Fin (real k) \<and>
      limit_p1 (max_req req) = Fin (real k)"
    if "max_req req = Some (Fin (real k))" "1 \<le> k" "k \<le> 100" for k
    using that g[of "real k"] by simp
  have gk2: "limit_v2 (max_req req) = Fin (real k)"
    if "max_req req = Some (Fin (real k))" "1 \<le> k" "k \<le> 50" for k
    using that g2[of "real k"] by simp
  have A: "\<forall>r. max_req req = Some (Fin r) \<and> 100 \<le> r \<longrightarrow>
      limit_v1 (max_req req) = Fin 100 \<and> limit_v2 (max_req req) = Fin 50 \<and>
      limit_p0 (max_req req) = Fin 100 \<and> limit_p1 (max_req req) = Fin 100"
    using top top2 by fastforce
  have B: "\<forall>r. max_req req = Some (Fin r) \<and> 50 \<le> r \<longrightarrow> limit_v2 (max_req req) = Fin 50"
    using top2 by blast
  have C: "\<forall>r. max_req req = Some (Fin r) \<and> r \<noteq> 0 \<and> r \<le> 100 \<longrightarrow>
      limit_v1 (max_req req) = Fin r \<and> limit_p0 (max_req req) = Fin r \<and>
      limit_p1 (max_req req) = Fin r \<and>
      (\<forall>data. results_of (scrape_v1 req e1) = Some data \<longrightarrow>
         (data = [] \<or> real (length data) < r + 1)) \<and>
      (\<forall>data. results_of (scrape_p0 req e3) = Some data \<longrightarrow>
         (data = [] \<or> real (length data) < r + 1)) \<and>
      (\<forall>data. results_of (scrape_p1 req e4) = Some data \<longrightarrow>
         (data = [] \<or> real (length data) < r + 1))"
    using g f1 f3 f4 by blast
  have D: "\<forall>r. max_req req = Some (Fin r) \<and> r \<noteq> 0 \<and> r \<le> 50 \<longrightarrow>
      limit_v2 (max_req req) = Fin r \<and>
      (\<forall>data. results_of (scrape_v2 req e2) = Some data \<longrightarrow>
         (data = [] \<or> real (length data) < r + 1))"
    using g2 f2 by blast
  have E: "\<forall>k. max_req req = Some (Fin (real k)) \<and> 1 \<le> k \<and> k \<le> 100 \<longrightarrow>
      limit_v1 (max_req req) = Fin (real k) \<and> limit_p0 (max_req req) = Fin (real k) \<and>
      limit_p1 (max_req req) = Fin (real k) \<and>
      (\<forall>data. results_of (scrape_v1 req e1) = Some data \<longrightarrow> length data \<le> k) \<and>
      (\<forall>data. results_of (scrape_p0 req e3) = Some data \<longrightarrow> length data \<le> k) \<and>
      (\<forall>data. results_of (scrape_p1 req e4) = Some data \<longrightarrow> length data \<le> k)"
    using gk w1 w3 w4 by blast
  have F: "\<forall>k. max_req req = Some (Fin (real k)) \<and> 1 \<le> k \<and> k \<le> 50 \<longrightarrow>
      limit_v2 (max_req req) = Fin (real k) \<and>
      (\<forall>data. results_of (scrape_v2 req e2) = Some data \<longrightarrow> length data \<le> k)"
    using gk2 w2 by blast
  from caps c1 c2 c3 c4 A B C D E F show ?thesis by blast
qed

text \<open>
  Claim C1 as stated fails on both ends of the clamp to \<open>[1, 50]\<close>. No route has the
  floor: \<open>max = 0\<close> gives the limit 20 and \<open>max = -3\<close> the limit -3, where the clamp gives
  1, and with \<open>max = 0\<close> and a feed of two entries the second route answers with two
  records. Three routes have the ceiling 100, not 50: \<open>max = 80\<close> gives the limit 80 in
  the first route, in \<open>part_000\<close> and in \<open>part_001\<close>, where the clamp gives 50, and with
  \<open>max = 80\<close> and a feed of 51 entries \<open>part_001\<close> answers with 51 records.
\<close>

theorem limit_not_clamped_to_1_50:
  "limit_v2 (Some (Fin 0)) = Fin 20 \<and> Fin 20 \<noteq> Fin (spec_clamp 0) \<and>
   limit_v2 (Some (Fin (- 3))) = Fin (- 3) \<and> Fin (- 3) \<noteq> Fin (spec_clamp (- 3)) \<and>
   map_option length (results_of (scrape_v2 (search (Some (Fin 0))) (feed_of 2 (\<lambda>i. Inr blank_pane))))
     = Some 2 \<and>
   \<not> real 2 \<le> spec_clamp 0 \<and>
   limit_v1 (Some (Fin 80)) = Fin 80 \<and> limit_p0 (Some (Fin 80)) = Fin 80 \<and>
   limit_p1 (Some (Fin 80)) = Fin 80 \<and> Fin 80 \<noteq> Fin (spec_clamp 80) \<and>
   map_option length
     (results_of (scrape_p1 (search (Some (Fin 80))) (feed_of 51 (\<lambda>i. Inr blank_pane))))
     = Some 51 \<and>
   \<not> real 51 \<le> spec_clamp 80"
proof -
  have a: "map_option length
      (results_of (scrape_v2 (search (Some (Fin 0))) (feed_of 2 (\<lambda>i. Inr blank_pane)))) = Some 2"
    by (simp add: scrape_v2_def run_v2_def search_def feed_of_def limit_v2_def limit_of_def
        Number_of_max_def or_number_def truthy_number_def loadEnough_v2_def below_take_def
        loadEnough_tries.simps loop_v2.simps)
  have b: "map_option length
      (results_of (scrape_p1 (search (Some (Fin 80))) (feed_of 51 (\<lambda>i. Inr blank_pane))))
      = Some 51"
    by (simp add: scrape_p1_def run_p1_def search_def feed_of_def limit_p1_def limit_of_def
        Number_of_max_def or_number_def truthy_number_def loadEnough_p1_def below_take_def
        loadEnough_tries.simps loop_p1.simps)
  from a b show ?thesis
    by (simp add: limit_v1_def limit_v2_def limit_p0_def limit_p1_def limit_of_def
        Number_of_max_def or_number_def truthy_number_def spec_clamp_def)
qed

text \<open>
  With \<open>max = 2.5\<close> and seven entries the loop of the second route runs for
  \<open>i = 0, 1, 2\<close>; the limit is 2.5 in every route.
\<close>

theorem limit_capped_not_floored_witness:
  "max_req (search (Some (Fin 2.5))) = Some (Fin 2.5) \<and>
   limit_v1 (max_req (search (Some (Fin 2.5)))) = Fin 2.5 \<and>
   limit_v2 (max_req (search (Some (Fin 2.5)))) = Fin 2.5 \<and>
   limit_p0 (max_req (search (Some (Fin 2.5)))) = Fin 2.5 \<and>
   limit_p1 (max_req (search (Some (Fin 2.5)))) = Fin 2.5 \<and>
   js_ge (Fin 50) (limit_v2 (max_req (search (Some (Fin 2.5))))) \<and>
   map_option length
     (results_of (scrape_v2 (search (Some (Fin 2.5))) (feed_of 7 (\<lambda>i. Inr blank_pane)))) = Some 3 \<and>
   real 3 < 2.5 + 1"
proof -
  have run: "map_option length
     (results_of (scrape_v2 (search (Some (Fin 2.5))) (feed_of 7 (\<lambda>i. Inr blank_pane)))) = Some 3"
    by (simp add: scrape_v2_def run_v2_def search_def feed_of_def limit_v2_def limit_of_def
        Number_of_max_def or_number_def truthy_number_def loadEnough_v2_def below_take_def
        loadEnough_tries.simps loop_v2.simps)
  show ?thesis
    using limit_capped_not_floored[of "search (Some (Fin 2.5))"
        "feed_of 0 (\<lambda>i. shows_v1 blank_pane)" "feed_of 7 (\<lambda>i. Inr blank_pane)"
        "feed_of 0 (\<lambda>i. shows_p0 blank_pane)" "feed_of 0 (\<lambda>i. Inr blank_pane)"] run
    by (simp add: search_def)
qed

section \<open>The feed loader returns\<close>

text \<open>
  Each loader makes at most its fixed number of measurements, returns whenever the
  browser calls it makes return, and the loader of the first route has returned once
  seven measurements in a row found the same number of entries.
\<close>

lemma loadEnough_tries_bound:
  "loadEnough_tries b poll count t = Inr k \<Longrightarrow> t \<le> b \<Longrightarrow> k \<le> b"
proof (induction b poll count t rule: loadEnough_tries.induct)
  case (1 b poll count t)
  note step = loadEnough_tries.simps[of b poll count t]
  show ?case
  proof (cases "t < b")
    case False
    with "1.prems" step show ?thesis by simp
  next
    case True
    with "1.prems"(1) step obtain num where p: "poll t = Inr num"
      by (cases "poll t") simp_all
    show ?thesis
    proof (cases "js_ge (Fin (real num)) count")
      case reached: True
      with "1.prems"(1) step True p show ?thesis by simp
    next
      case False
      then have "loadEnough_tries b poll count (Suc t) = Inr k"
        using "1.prems"(1) step True p by simp
      then show ?thesis
        using "1.IH"[OF True p False] True by simp
    qed
  qed
qed

lemma loadEnough_tries_returns:
  "\<forall>i. \<exists>c. poll i = Inr c \<Longrightarrow> \<exists>k. loadEnough_tries b poll count t = Inr k"
proof (induction b poll count t rule: loadEnough_tries.induct)
  case (1 b poll count t)
  note step = loadEnough_tries.simps[of b poll count t]
  show ?case
  proof (cases "t < b")
    case False
    with step show ?thesis by simp
  next
    case True
    from "1.prems" obtain num where p: "poll t = Inr num" by blast
    show ?thesis
    proof (cases "js_ge (Fin (real num)) count")
      case reached: True
      with step True p show ?thesis by simp
    next
      case False
      then show ?thesis
        using "1.IH"[OF True p False "1.prems"] step True p by simp
    qed
  qed
qed

lemma loadEnough_v1_bound:
  "loadEnough_v1 poll count i seen stagnant = Inr k \<Longrightarrow> i \<le> 40 \<Longrightarrow> k \<le> 40"
proof (induction poll count i seen stagnant rule: loadEnough_v1.induct)
  case (1 poll count i seen stagnant)
  note step = loadEnough_v1.simps[of poll count i seen stagnant]
  show ?case
  proof (cases "i < 40")
    case False
    with "1.prems" step show ?thesis by simp
  next
    case True
    with "1.prems"(1) step obtain n where p: "poll i = Inr n"
      by (cases "poll i") simp_all
    show ?thesis
    proof (cases "js_ge (Fin (real n)) count \<or> 6 \<le> (if n = seen then Suc stagnant else 0)")
      case stop: True
      with "1.prems"(1) step True p have "k = Suc i" by (auto split: if_splits)
      with True show ?thesis by simp
    next
      case False
      then have "loadEnough_v1 poll count (Suc i) n (if n = seen then Suc stagnant else 0) = Inr k"
        using "1.prems"(1) step True p by simp
      then show ?thesis
        using "1.IH"[OF True p] False True by simp
    qed
  qed
qed

lemma loadEnough_v1_returns:
  "\<forall>i. \<exists>c. poll i = Inr c \<Longrightarrow> \<exists>k. loadEnough_v1 poll count i seen stagnant = Inr k"
proof (induction poll count i seen stagnant rule: loadEnough_v1.induct)
  case (1 poll count i seen stagnant)
  note step = loadEnough_v1.simps[of poll count i seen stagnant]
  show ?case
  proof (cases "i < 40")
    case False
    with step show ?thesis by simp
  next
    case True
    from "1.prems" obtain n where p: "poll i = Inr n" by blast
    show ?thesis
    proof (cases "js_ge (Fin (real n)) count \<or> 6 \<le> (if n = seen then Suc stagnant else 0)")
      case stop: True
      with step True p show ?thesis by (auto split: if_splits)
    next
      case False
      then show ?thesis
        using "1.IH"[OF True p _ _ "1.prems"] step True p by simp
    qed
  qed
qed

lemma loadEnough_v1_stall:
  "loadEnough_v1 poll count i seen stagnant = Inr k \<Longrightarrow> \<forall>t \<le> 6. poll (j + t) = Inr c \<Longrightarrow>
   i \<le> j \<or> (i \<le> j + 6 \<and> seen = c \<and> i - j - 1 \<le> stagnant) \<Longrightarrow> k \<le> j + 7"
proof (induction poll count i seen stagnant rule: loadEnough_v1.induct)
  case (1 poll count i seen stagnant)
  note step = loadEnough_v1.simps[of poll count i seen stagnant]
  note stall = "1.prems"(2)
  show ?case
  proof (cases "i < 40")
    case False
    with "1.prems"(1) step have "k = i" by simp
    with "1.prems"(3) show ?thesis by auto
  next
    case True
    with "1.prems"(1) step obtain n where p: "poll i = Inr n"
      by (cases "poll i") simp_all
    have here: "n = c" if "j \<le> i" "i \<le> j + 6"
    proof -
      from that have "i - j \<le> 6" and "j + (i - j) = i" by simp_all
      with stall[rule_format, of "i - j"] p show ?thesis by simp
    qed
    show ?thesis
    proof (cases "js_ge (Fin (real n)) count \<or> 6 \<le> (if n = seen then Suc stagnant else 0)")
      case stop: True
      with "1.prems"(1) step True p have "k = Suc i" by (auto split: if_splits)
      with "1.prems"(3) show ?thesis by auto
    next
      case False
      then have rec: "loadEnough_v1 poll count (Suc i) n (if n = seen then Suc stagnant else 0) = Inr k"
        using "1.prems"(1) step True p by simp
      have inv: "Suc i \<le> j \<or> (Suc i \<le> j + 6 \<and> n = c \<and>
                 Suc i - j - 1 \<le> (if n = seen then Suc stagnant else 0))"
      proof (cases "i < j")
        case True
        then show ?thesis by simp
      next
        case at: False
        then have ji: "j \<le> i" by simp
        from "1.prems"(3) at have i6: "i \<le> j + 6" and later: "j < i \<longrightarrow> seen = c \<and> i - j - 1 \<le> stagnant"
          by auto
        have nc: "n = c" using here ji i6 by simp
        show ?thesis
        proof (cases "i = j")
          case True
          with nc show ?thesis by simp
        next
          case neq: False
          with ji later have s: "seen = c" "i - j - 1 \<le> stagnant" by auto
          with nc False have "Suc stagnant < 6" by simp
          with s nc ji neq show ?thesis by auto
        qed
      qed
      show ?thesis
        using "1.IH"[OF True p _ _ rec stall inv] False by simp
    qed
  qed
qed

lemma js_less_mono: "a \<le> b \<Longrightarrow> js_less (Fin b) l \<Longrightarrow> js_less (Fin a) l"
  by (cases l) auto

lemma below_limit_below_max:
  "js_less (Fin a) (limit_of (Fin c) (Some (Fin r))) \<Longrightarrow> r \<noteq> 0 \<Longrightarrow> a < r"
  by (simp add: limit_of_def Number_of_max_def or_number_def truthy_number_def)

lemma results_v1_entries:
  assumes "results_of (scrape_v1 req e) = Some data" and "collect e = Inr m"
  shows "length data \<le> m"
proof -
  from assms obtain "loop_v1 (visit e) (limit_v1 (max_req req)) m 0 None [] = Inr data"
    using results_v1D by fastforce
  then show ?thesis
    using loop_v1_last[of "visit e" _ m 0 None "[]" data] last_index_entries[of data m] by auto
qed

lemma results_v2_entries:
  assumes "results_of (scrape_v2 req e) = Some data" and "collect e = Inr m"
  shows "length data \<le> m"
proof -
  from assms obtain "loop_v2 (visit e) (limit_v2 (max_req req)) m 0 [] = Inr data"
    using results_v2D by fastforce
  then show ?thesis
    using loop_v2_last[of "visit e" _ m 0 "[]" data] last_index_entries[of data m] by auto
qed

lemma results_p1_entries:
  assumes "results_of (scrape_p1 req e) = Some data" and "collect e = Inr m"
  shows "length data \<le> m"
proof -
  from assms obtain "loop_p1 (visit e) (limit_p1 (max_req req)) m 0 [] = Inr data"
    using results_p1D by fastforce
  then show ?thesis
    using loop_p1_last[of "visit e" _ m 0 "[]" data] last_index_entries[of data m] by auto
qed

lemma results_p0_entries:
  assumes "results_of (scrape_p0 req e) = Some data" and "collect e = Inr m"
  shows "length data \<le> m"
proof -
  from assms obtain "loop_p0 (visit e) (limit_p0 (max_req req)) m 0 [] = Inr data"
    using results_p0D by fastforce
  then show ?thesis
    using loop_p0_last[of "visit e" _ m 0 "[]" data] last_index_entries[of data m] by auto
qed

text \<open>
  Claim C8, as amended. The loaders make at most 40, 15, 20 and 20 measurements and raise
  nothing of their own: when no measurement throws they return. In the first route the
  loader has returned at the latest with the seventh of seven consecutive equal
  measurements. When fewer entries than the limit are present at the time the entries
  are collected, a successful response holds no more records than that, so fewer than
  the limit, and fewer than \<open>max\<close> when \<open>max\<close> is a non-zero number.
\<close>

theorem loader_bounded_results_below_limit:
  "(\<forall>k. loadEnough_v1 poll count 0 0 0 = Inr k \<longrightarrow> k \<le> 40) \<and>
   (\<forall>k. loadEnough_v2 poll count = Inr k \<longrightarrow> k \<le> 15) \<and>
   (\<forall>k. loadEnough_p0 poll count = Inr k \<longrightarrow> k \<le> 20) \<and>
   (\<forall>k. loadEnough_p1 poll count = Inr k \<longrightarrow> k \<le> 20) \<and>
   ((\<forall>i. \<exists>c. poll i = Inr c) \<longrightarrow>
      (\<exists>k. loadEnough_v1 poll count 0 0 0 = Inr k) \<and> (\<exists>k. loadEnough_v2 poll count = Inr k) \<and>
      (\<exists>k. loadEnough_p0 poll count = Inr k) \<and> (\<exists>k. loadEnough_p1 poll count = Inr k)) \<and>
   ((\<forall>t \<le> 6. poll (j + t) = Inr c) \<longrightarrow>
      (\<forall>k. loadEnough_v1 poll count 0 0 0 = Inr k \<longrightarrow> k \<le> j + 7)) \<and>
   (\<forall>m data. collect e1 = Inr m \<and> js_less (Fin (real m)) (limit_v1 (max_req req)) \<and>
      results_of (scrape_v1 req e1) = Some data \<longrightarrow>
      length data \<le> m \<and> js_less (Fin (real (length data))) (limit_v1 (max_req req)) \<and>
      (\<forall>r. max_req req = Some (Fin r) \<and> r \<noteq> 0 \<longrightarrow> real (length data) < r)) \<and>
   (\<forall>m data. collect e2 = Inr m \<and> js_less (Fin (real m)) (limit_v2 (max_req req)) \<and>
      results_of (scrape_v2 req e2) = Some data \<longrightarrow>
      length data \<le> m \<and> js_less (Fin (real (length data))) (limit_v2 (max_req req)) \<and>
      (\<forall>r. max_req req = Some (Fin r) \<and> r \<noteq> 0 \<longrightarrow> real (length data) < r)) \<and>
   (\<forall>m data. collect e3 = Inr m \<and> js_less (Fin (real m)) (limit_p0 (max_req req)) \<and>
      results_of (scrape_p0 req e3) = Some data \<longrightarrow>
      length data \<le> m \<and> js_less (Fin (real (length data))) (limit_p0 (max_req req)) \<and>
      (\<forall>r. max_req req = Some (Fin r) \<and> r \<noteq> 0 \<longrightarrow> real (length data) < r)) \<and>
   (\<forall>m data. collect e4 = Inr m \<and> js_less (Fin (real m)) (limit_p1 (max_req req)) \<and>
      results_of (scrape_p1 req e4) = Some data \<longrightarrow>
      length data \<le> m \<and> js_less (Fin (real (length data))) (limit_p1 (max_req req)) \<and>
      (\<forall>r. max_req req = Some (Fin r) \<and> r \<noteq> 0 \<longrightarrow> real (length data) < r))"
proof -
  have b1: "k \<le> 40" if "loadEnough_v1 poll count 0 0 0 = Inr k" for k
    using loadEnough_v1_bound[OF that] by simp
  have b2: "k \<le> 15" if "loadEnough_v2 poll count = Inr k" for k
    using that loadEnough_tries_bound[of 15 poll count 0 k] by (simp add: loadEnough_v2_def)
  have b3: "k \<le> 20" if "loadEnough_p0 poll count = Inr k" for k
    using that loadEnough_tries_bound[of 20 poll count 0 k] by (simp add: loadEnough_p0_def)
  have b4: "k \<le> 20" if "loadEnough_p1 poll count = Inr k" for k
    using that loadEnough_tries_bound[of 20 poll count 0 k] by (simp add: loadEnough_p1_def)
  have t: "(\<exists>k. loadEnough_v1 poll count 0 0 0 = Inr k) \<and> (\<exists>k. loadEnough_v2 poll count = Inr k) \<and>
      (\<exists>k. loadEnough_p0 poll count = Inr k) \<and> (\<exists>k. loadEnough_p1 poll count = Inr k)"
    if "\<forall>i. \<exists>c. poll i = Inr c"
    using loadEnough_v1_returns[OF that] loadEnough_tries_returns[OF that]
    by (simp add: loadEnough_v2_def loadEnough_p0_def loadEnough_p1_def)
  have s: "k \<le> j + 7" if "\<forall>t \<le> 6. poll (j + t) = Inr c" "loadEnough_v1 poll count 0 0 0 = Inr k" for k
    using loadEnough_v1_stall[OF that(2) that(1)] by simp
  have r1: "length data \<le> m \<and> js_less (Fin (real (length data))) (limit_v1 (max_req req)) \<and>
      (\<forall>r. max_req req = Some (Fin r) \<and> r \<noteq> 0 \<longrightarrow> real (length data) < r)"
    if "collect e1 = Inr m" "js_less (Fin (real m)) (limit_v1 (max_req req))"
       "results_of (scrape_v1 req e1) = Some data" for m data
  proof -
    have le: "length data \<le> m"
      using results_v1_entries[OF that(3,1)] .
    then have less: "js_less (Fin (real (length data))) (limit_v1 (max_req req))"
      using that(2) js_less_mono[of "real (length data)" "real m"] by simp
    then have "real (length data) < r" if "max_req req = Some (Fin r)" "r \<noteq> 0" for r
      using that below_limit_below_max[of "real (length data)" _ r] by (simp add: limit_v1_def)
    with le less show ?thesis by blast
  qed
  have r2: "length data \<le> m \<and> js_less (Fin (real (length data))) (limit_v2 (max_req req)) \<and>
      (\<forall>r. max_req req = Some (Fin r) \<and> r \<noteq> 0 \<longrightarrow> real (length data) < r)"
    if "collect e2 = Inr m" "js_less (Fin (real m)) (limit_v2 (max_req req))"
       "results_of (scrape_v2 req e2) = Some data" for m data
  proof -
    have le: "length data \<le> m"
      using results_v2_entries[OF that(3,1)] .
    then have less: "js_less (Fin (real (length data))) (limit_v2 (max_req req))"
      using that(2) js_less_mono[of "real (length data)" "real m"] by simp
    then have "real (length data) < r" if "max_req req = Some (Fin r)" "r \<noteq> 0" for r
      using that below_limit_below_max[of "real (length data)" _ r] by (simp add: limit_v2_def)
    with le less show ?thesis by blast
  qed
  have r3: "length data \<le> m \<and> js_less (Fin (real (length data))) (limit_p0 (max_req req)) \<and>
      (\<forall>r. max_req req = Some (Fin r) \<and> r \<noteq> 0 \<longrightarrow> real (length data) < r)"
    if "collect e3 = Inr m" "js_less (Fin (real m)) (limit_p0 (max_req req))"
       "results_of (scrape_p0 req e3) = Some data" for m data
  proof -
    have le: "length data \<le> m"
      using results_p0_entries[OF that(3,1)] .
    then have less: "js_less (Fin (real (length data))) (limit_p0 (max_req req))"
      using that(2) js_less_mono[of "real (length data)" "real m"] by simp
    then have "real (length data) < r" if "max_req req = Some (Fin r)" "r \<noteq> 0" for r
      using that below_limit_below_max[of "real (length data)" _ r] by (simp add: limit_p0_def)
    with le less show ?thesis by blast
  qed
  have r4: "length data \<le> m \<and> js_less (Fin (real (length data))) (limit_p1 (max_req req)) \<and>
      (\<forall>r. max_req req = Some (Fin r) \<and> r \<noteq> 0 \<longrightarrow> real (length data) < r)"
    if "collect e4 = Inr m" "js_less (Fin (real m)) (limit_p1 (max_req req))"
       "results_of (scrape_p1 req e4) = Some data" for m data
  proof -
    have le: "length data \<le> m"
      using results_p1_entries[OF that(3,1)] .
    then have less: "js_less (Fin (real (length data))) (limit_p1 (max_req req))"
      using that(2) js_less_mono[of "real (length data)" "real m"] by simp
    then have "real (length data) < r" if "max_req req = Some (Fin r)" "r \<noteq> 0" for r
      using that below_limit_below_max[of "real (length data)" _ r] by (simp add: limit_p1_def)
    with le less show ?thesis by blast
  qed
  show ?thesis
    using b1 b2 b3 b4 t s r1 r2 r3 r4 by blast
qed

text \<open>
  Claim C8 as stated fails: the number of entries stays at 1, below the target 2, for
  six consecutive measurements (and a seventh), the loader returns without an error,
  and the entries are counted again afterwards; the feed then holds 2 entries and the
  response holds 2 records for \<open>max = 2\<close>, not fewer.
\<close>

theorem stalled_feed_can_fill_the_limit:
  "map (polls late_feed) [0, 1, 2, 3, 4, 5] = [Inr 1, Inr 1, Inr 1, Inr 1, Inr 1, Inr 1] \<and>
   js_less (Fin (real 1)) (limit_v1 (Some (Fin 2))) \<and>
   loadEnough_v1 (polls late_feed) (limit_v1 (Some (Fin 2))) 0 0 0 = Inr 7 \<and>
   map_option (map name) (results_of (scrape_v1 (search (Some (Fin 2))) late_feed))
     = Some [''Cafe Uno'', ''Cafe Due''] \<and>
   \<not> js_less (Fin (real (length [''Cafe Uno'', ''Cafe Due'']))) (limit_v1 (Some (Fin 2)))"
proof -
  have l: "limit_v1 (Some (Fin 2)) = Fin 2"
    by (simp add: limit_v1_def limit_of_def Number_of_max_def or_number_def truthy_number_def)
  have p: "loadEnough_v1 (polls late_feed) (Fin 2) 0 0 0 = Inr 7"
    by (simp add: late_feed_def loadEnough_v1.simps)
  have n: "name_v1 (named_pane nm) = trim nm" for nm
    by (simp add: name_v1_def named_pane_def blank_pane_def pickText_def or_str_def)
  have t: "trim ''Cafe Uno'' = ''Cafe Uno''" "trim ''Cafe Due'' = ''Cafe Due''"
    by (simp_all add: trim_def is_space_def code_unit_def)
  have r: "results_of (scrape_v1 (search (Some (Fin 2))) late_feed)
      = Some [record_v1 (named_pane ''Cafe Uno''), record_v1 (named_pane ''Cafe Due'')]"
    by (simp add: scrape_v1_def run_v1_def search_def l p late_feed_def[THEN arg_cong, of nav]
        late_feed_def[THEN arg_cong, of launch] late_feed_def[THEN arg_cong, of collect]
        late_feed_def[THEN arg_cong, of visit] below_take_def shows_v1_def loop_v1.simps n t)
  show ?thesis
    using l p r by (simp add: late_feed_def name_record_v1 n t)
qed

text \<open>
  A feed that holds three entries throughout, asked for five: the loaders give up after
  7, 15 and 20 measurements and the response holds three records.
\<close>

theorem loader_bounded_results_below_limit_witness:
  "loadEnough_v1 (\<lambda>k. Inr 3) (Fin 5) 0 0 0 = Inr 7 \<and>
   loadEnough_v2 (\<lambda>k. Inr 3) (Fin 5) = Inr 15 \<and>
   loadEnough_p0 (\<lambda>k. Inr 3) (Fin 5) = Inr 20 \<and>
   loadEnough_p1 (\<lambda>k. Inr 3) (Fin 5) = Inr 20 \<and>
   collect (feed_of 3 (\<lambda>i. Inr blank_pane)) = Inr 3 \<and>
   js_less (Fin (real 3)) (limit_v2 (max_req (search (Some (Fin 5))))) \<and>
   map_option length
     (results_of (scrape_v2 (search (Some (Fin 5))) (feed_of 3 (\<lambda>i. Inr blank_pane)))) = Some 3 \<and>
   real 3 < 5"
proof -
  have a: "loadEnough_v1 (\<lambda>k. Inr 3) (Fin 5) 0 0 0 = Inr 7"
    by (simp add: loadEnough_v1.simps)
  have b: "loadEnough_v2 (\<lambda>k. Inr 3) (Fin 5) = Inr 15"
    by (simp add: loadEnough_v2_def loadEnough_tries.simps)
  have c: "loadEnough_p0 (\<lambda>k. Inr 3) (Fin 5) = Inr 20"
    by (simp add: loadEnough_p0_def loadEnough_tries.simps)
  have d: "loadEnough_p1 (\<lambda>k. Inr 3) (Fin 5) = Inr 20"
    by (simp add: loadEnough_p1_def loadEnough_tries.simps)
  have l: "limit_v2 (Some (Fin 5)) = Fin 5"
    by (simp add: limit_v2_def limit_of_def Number_of_max_def or_number_def truthy_number_def)
  have r: "map_option length
     (results_of (scrape_v2 (search (Some (Fin 5))) (feed_of 3 (\<lambda>i. Inr blank_pane)))) = Some 3"
    using b by (simp add: scrape_v2_def run_v2_def l search_def feed_of_def below_take_def
        loop_v2.simps)
  show ?thesis
    using loader_bounded_results_below_limit[of "\<lambda>k. Inr 3" "Fin 5" 0 3
        "feed_of 0 (\<lambda>i. shows_v1 blank_pane)" "search (Some (Fin 5))"
        "feed_of 3 (\<lambda>i. Inr blank_pane)" "feed_of 0 (\<lambda>i. shows_p0 blank_pane)"
        "feed_of 0 (\<lambda>i. Inr blank_pane)"] a b c d l r
    by (simp add: feed_of_def search_def)
qed

end
